theory Spec2Isabelle
  imports Main "HOL-Library.Signed_Division"
begin

unbundle bit_operations_syntax

section \<open>JavaScript values\<close>

text \<open>
  The library computes on JavaScript \<^verbatim>\<open>bigint\<close> values, modelled as \<^typ>\<open>int\<close>.
  On \<^verbatim>\<open>bigint\<close> the operator \<^verbatim>\<open>/\<close> truncates towards zero and \<^verbatim>\<open>%\<close> takes the
  sign of the dividend: these are \<open>sdiv\<close> and \<open>smod\<close>. Both raise a RangeError when the
  divisor is zero. Several functions of bigint-crypto-utils signal failure by returning
  the Number \<^verbatim>\<open>NaN\<close>; arithmetic that mixes a \<^verbatim>\<open>bigint\<close> with \<^verbatim>\<open>NaN\<close> or \<^verbatim>\<open>null\<close>
  raises a TypeError, and \<^verbatim>\<open>BigInt(NaN)\<close> raises a RangeError.
\<close>

datatype num = Big int | NaN

text \<open>
  The errors the code can raise, by class and origin: the RangeError that
  \<^verbatim>\<open>getRandomFactor\<close> throws itself (``Cannot recover the random factor if
  publicKey.g != publicKey.n + 1''), the RangeError of a division by \<^verbatim>\<open>0n\<close>, the
  RangeError of \<^verbatim>\<open>BigInt(NaN)\<close>, the TypeError of mixing a \<^verbatim>\<open>bigint\<close> with another type,
  and the Error of \<^verbatim>\<open>randBetween\<close> (``max must be > min'').
\<close>

datatype error =
    RangeError_CannotRecover
  | RangeError_DivisionByZero
  | RangeError_NotAnInteger
  | TypeError_MixedTypes
  | Error_MaxMin

text \<open>\<^verbatim>\<open>(x * y) % m\<close> where \<open>m\<close> is a \<^verbatim>\<open>bigint\<close>: a product of two Numbers is a Number,
  and the remainder then mixes the types.\<close>

fun mul_rem :: "num \<Rightarrow> num \<Rightarrow> int \<Rightarrow> error + int" where
  "mul_rem (Big a) (Big b) m =
     (if m = 0 then Inl RangeError_DivisionByZero else Inr ((a * b) smod m))"
| "mul_rem _ _ m = Inl TypeError_MixedTypes"

section \<open>bigint-crypto-utils: modular arithmetic\<close>

definition bcu_abs :: "int \<Rightarrow> int" where
  "bcu_abs a = (if a \<ge> 0 then a else - a)"

definition toZn :: "int \<Rightarrow> int \<Rightarrow> num" where
  "toZn a n =
     (if n \<le> 0 then NaN
      else (let a' = a smod n in if a' < 0 then Big (a' + n) else Big a'))"

record egcdReturn =
  eg_b :: int
  eg_x :: int
  eg_y :: int

function eGcd_loop :: "int \<Rightarrow> int \<Rightarrow> int \<Rightarrow> int \<Rightarrow> int \<Rightarrow> int \<Rightarrow> egcdReturn" where
  "eGcd_loop a b x y u v =
     (if a \<noteq> 0 then
        (let q = b sdiv a; r = b smod a; m = x - u * q; n = y - v * q
         in eGcd_loop r a u v m n)
      else \<lparr>eg_b = b, eg_x = x, eg_y = y\<rparr>)"
  by pat_completeness auto
termination
  by (relation "measure (\<lambda>(a, b, x, y, u, v). nat \<bar>a\<bar>)")
     (auto simp: smod_int_alt_def abs_mult)

declare eGcd_loop.simps [simp del]

text \<open>\<open>None\<close> stands for the \<^verbatim>\<open>NaN\<close> that \<^verbatim>\<open>eGcd\<close> returns for a non-positive argument.\<close>

definition eGcd :: "int \<Rightarrow> int \<Rightarrow> egcdReturn option" where
  "eGcd a b = (if a \<le> 0 \<or> b \<le> 0 then None else Some (eGcd_loop a b 0 1 1 0))"

text \<open>
  The binary gcd. Its three loops are entered with \<open>a\<close> and \<open>b\<close> positive only (the
  zero cases return before them), where they terminate; on zero they would spin. The
  conjuncts \<open>a \<noteq> 0 \<or> b \<noteq> 0\<close>, \<open>a \<noteq> 0\<close> and \<open>0 < a2\<close> below hold on every state
  the code reaches and make the three functions total.
\<close>

lemma abs_half_le: "even a \<Longrightarrow> \<bar>a div 2\<bar> \<le> \<bar>a\<bar>" for a :: int
  by (elim evenE) simp

lemma abs_half_less: "even a \<Longrightarrow> a \<noteq> 0 \<Longrightarrow> \<bar>a div 2\<bar> < \<bar>a\<bar>" for a :: int
  by (elim evenE) simp

function gcd_shift_loop :: "int \<Rightarrow> int \<Rightarrow> int \<Rightarrow> int \<times> int \<times> int" where
  "gcd_shift_loop a b shift =
     (if (a OR b) AND 1 = 0 \<and> (a \<noteq> 0 \<or> b \<noteq> 0)
      then gcd_shift_loop (drop_bit 1 a) (drop_bit 1 b) (shift + 1)
      else (a, b, shift))"
  by pat_completeness auto
termination
proof (relation "measure (\<lambda>(a, b, s). nat (\<bar>a\<bar> + \<bar>b\<bar>))")
  fix a b shift :: int
  assume h: "(a OR b) AND 1 = 0 \<and> (a \<noteq> 0 \<or> b \<noteq> 0)"
  then have "even (a OR b)"
    by (simp add: and_one_eq even_iff_mod_2_eq_zero)
  then have "even a" "even b"
    by (simp_all add: even_or_iff)
  with h have "\<bar>a div 2\<bar> + \<bar>b div 2\<bar> < \<bar>a\<bar> + \<bar>b\<bar>"
    using abs_half_le [of a] abs_half_le [of b] abs_half_less [of a] abs_half_less [of b]
    by linarith
  then show "((drop_bit 1 a, drop_bit 1 b, shift + 1), (a, b, shift))
               \<in> measure (\<lambda>(a, b, s). nat (\<bar>a\<bar> + \<bar>b\<bar>))"
    by (simp add: drop_bit_eq_div)
qed simp

declare gcd_shift_loop.simps [simp del]

function gcd_strip :: "int \<Rightarrow> int" where
  "gcd_strip a = (if a AND 1 = 0 \<and> a \<noteq> 0 then gcd_strip (drop_bit 1 a) else a)"
  by pat_completeness auto
termination
proof (relation "measure (\<lambda>a. nat \<bar>a\<bar>)")
  fix a :: int
  assume h: "a AND 1 = 0 \<and> a \<noteq> 0"
  then have "even a"
    by (simp add: and_one_eq even_iff_mod_2_eq_zero)
  with h have "\<bar>a div 2\<bar> < \<bar>a\<bar>"
    by (simp add: abs_half_less)
  then show "(drop_bit 1 a, a) \<in> measure (\<lambda>a. nat \<bar>a\<bar>)"
    by (simp add: drop_bit_eq_div)
qed simp

declare gcd_strip.simps [simp del]

lemma gcd_strip_pos: "0 < gcd_strip b \<Longrightarrow> 0 < b \<and> gcd_strip b \<le> b"
proof (induction b rule: gcd_strip.induct)
  case (1 a)
  show ?case
  proof (cases "a AND 1 = 0 \<and> a \<noteq> 0")
    case True
    then have eq: "gcd_strip a = gcd_strip (drop_bit 1 a)"
      by (subst gcd_strip.simps) simp
    with "1.prems" have "0 < gcd_strip (drop_bit 1 a)"
      by simp
    with "1.IH" True have "0 < drop_bit 1 a \<and> gcd_strip (drop_bit 1 a) \<le> drop_bit 1 a"
      by blast
    then have "0 < a div 2 \<and> gcd_strip a \<le> a div 2"
      unfolding eq by (simp add: drop_bit_eq_div)
    then show ?thesis
      by linarith
  next
    case False
    then have "gcd_strip a = a"
      by (subst gcd_strip.simps) auto
    with "1.prems" show ?thesis
      by simp
  qed
qed

function gcd_sub_loop :: "int \<Rightarrow> int \<Rightarrow> int" where
  "gcd_sub_loop a b =
     (let b1 = gcd_strip b;
          (a2, b2) = (if a > b1 then (b1, a) else (a, b1));
          b3 = b2 - a2
      in if b3 \<noteq> 0 \<and> 0 < a2 then gcd_sub_loop a2 b3 else a2)"
  by pat_completeness auto
termination
proof (relation "measure (\<lambda>(a, b). nat (a + b))")
  fix a b b1 :: int and x :: "int \<times> int" and a2 b2 b3 :: int
  assume b1: "b1 = gcd_strip b"
    and x: "x = (if b1 < a then (b1, a) else (a, b1))"
    and ab: "(a2, b2) = x"
    and b3: "b3 = b2 - a2"
    and go: "b3 \<noteq> 0 \<and> 0 < a2"
  from x ab have "a2 = min a b1" "b2 = max a b1"
    by (auto split: if_splits)
  with go have "0 < a" "0 < b1"
    by auto
  with gcd_strip_pos [of b] b1 have "0 < b" "b1 \<le> b"
    by auto
  with \<open>a2 = min a b1\<close> \<open>b2 = max a b1\<close> \<open>0 < a\<close> \<open>0 < b1\<close> b3
  show "((a2, b3), (a, b)) \<in> measure (\<lambda>(a, b). nat (a + b))"
    by auto
qed simp

declare gcd_sub_loop.simps [simp del]

definition bcu_gcd :: "int \<Rightarrow> int \<Rightarrow> int" where
  "bcu_gcd a0 b0 =
     (let a = bcu_abs a0; b = bcu_abs b0
      in if a = 0 then b
         else if b = 0 then a
         else (let (a1, b1, shift) = gcd_shift_loop a b 0;
                   a2 = gcd_strip a1;
                   a3 = gcd_sub_loop a2 b1
               in push_bit (nat shift) a3))"

definition bcu_lcm :: "int \<Rightarrow> int \<Rightarrow> int" where
  "bcu_lcm a b = (if a = 0 \<and> b = 0 then 0 else bcu_abs (a * b) sdiv bcu_gcd a b)"

text \<open>
  \<^verbatim>\<open>modInv\<close> is only called with \<^verbatim>\<open>bigint\<close> arguments. After the guard \<open>n\<close> is
  positive, so \<open>toZn\<close> returns a \<^verbatim>\<open>bigint\<close>. When \<open>eGcd\<close> returns \<^verbatim>\<open>NaN\<close> (its first
  argument reduced to zero), \<^verbatim>\<open>egcd.b\<close> is \<^verbatim>\<open>undefined\<close>, which differs from \<^verbatim>\<open>1n\<close>.
\<close>

definition modInv :: "int \<Rightarrow> int \<Rightarrow> num" where
  "modInv a n =
     (if a = 0 \<or> n \<le> 0 then NaN
      else (case toZn a n of
              NaN \<Rightarrow> NaN
            | Big a' \<Rightarrow>
                (case eGcd a' n of
                   None \<Rightarrow> NaN
                 | Some egcd \<Rightarrow> if eg_b egcd \<noteq> 1 then NaN else toZn (eg_x egcd) n)))"

function modPow_loop :: "int \<Rightarrow> int \<Rightarrow> int \<Rightarrow> int \<Rightarrow> int" where
  "modPow_loop result x b n =
     (if b > 0 then
        (let leastSignificantBit = b smod 2;
             b' = b sdiv 2;
             result' = (if leastSignificantBit = 1 then (result * x) smod n else result);
             x' = (x * x) smod n
         in modPow_loop result' x' b' n)
      else result)"
  by pat_completeness auto
termination
  by (relation "measure (\<lambda>(result, x, b, n). nat b)")
     (auto simp: signed_divide_int_def)

declare modPow_loop.simps [simp del]

text \<open>
  \<^verbatim>\<open>modPow\<close> with \<^verbatim>\<open>bigint\<close> arguments. For a negative modulus \<open>toZn\<close> returns \<^verbatim>\<open>NaN\<close>:
  then the loop body, if entered, multiplies or reduces a \<^verbatim>\<open>bigint\<close> with \<^verbatim>\<open>NaN\<close> and
  raises a TypeError, and with exponent zero the loop is skipped and \<^verbatim>\<open>1n\<close> is returned.
  For a negative exponent the function calls itself on the reduced base (which for a
  negative modulus is \<^verbatim>\<open>NaN\<close>, reduced to \<^verbatim>\<open>NaN\<close> again whatever the base is) and hands
  the result to \<^verbatim>\<open>modInv\<close>; a \<^verbatim>\<open>NaN\<close> result would be returned as \<^verbatim>\<open>NaN\<close> for
  \<open>n \<le> 0\<close> and raise a RangeError in \<^verbatim>\<open>BigInt(NaN)\<close> otherwise.
\<close>

function modPow :: "int \<Rightarrow> int \<Rightarrow> int \<Rightarrow> error + num" where
  "modPow a b n =
     (if n = 0 then Inr NaN
      else (let a' = toZn a n
            in if b < 0 then
                 (case modPow (case a' of Big v \<Rightarrow> v | NaN \<Rightarrow> a) (bcu_abs b) n of
                    Inl e \<Rightarrow> Inl e
                  | Inr (Big v) \<Rightarrow> Inr (modInv v n)
                  | Inr NaN \<Rightarrow> (if n \<le> 0 then Inr NaN else Inl RangeError_NotAnInteger))
               else (case a' of
                       Big x \<Rightarrow> Inr (Big (modPow_loop 1 x b n))
                     | NaN \<Rightarrow> (if b > 0 then Inl TypeError_MixedTypes else Inr (Big 1)))))"
  by pat_completeness auto
termination
  by (relation "measure (\<lambda>(a, b, n). if b < 0 then 1 else 0)")
     (auto simp: bcu_abs_def)

declare modPow.simps [simp del]

text \<open>
  \<^verbatim>\<open>randBetween(max, min)\<close> raises when \<open>max \<le> min\<close> and otherwise returns what its
  rejection loop over the platform's random bits settles on, a value of \<open>[min, max]\<close>.
  The random source is outside the program: the value drawn is an argument.
\<close>

definition randBetween :: "int \<Rightarrow> int \<Rightarrow> int \<Rightarrow> error + int" where
  "randBetween mx mn drawn = (if mx \<le> mn then Inl Error_MaxMin else Inr drawn)"

section \<open>bigint-crypto-utils: the primality test's prefilter\<close>




section \<open>The Paillier scheme\<close>

record PublicKey =
  pk_n :: int
  pk_n2 :: int
  pk_g :: int

definition new_PublicKey :: "int \<Rightarrow> int \<Rightarrow> PublicKey" where
  "new_PublicKey n g = \<lparr>pk_n = n, pk_n2 = n ^ 2, pk_g = g\<rparr>"

text \<open>The primes are optional: \<open>None\<close> is \<^verbatim>\<open>null\<close>. The constructor stores
  \<^verbatim>\<open>p || null\<close>, and \<^verbatim>\<open>0n\<close> is falsy.\<close>

record PrivateKey =
  sk_lambda :: int
  sk_mu :: num
  sk_p :: "int option"
  sk_q :: "int option"
  sk_publicKey :: PublicKey

definition or_null :: "int option \<Rightarrow> int option" where
  "or_null p = (case p of None \<Rightarrow> None | Some v \<Rightarrow> if v = 0 then None else Some v)"

definition new_PrivateKey :: "int \<Rightarrow> num \<Rightarrow> PublicKey \<Rightarrow> int option \<Rightarrow> int option \<Rightarrow> PrivateKey" where
  "new_PrivateKey lam m pk p q =
     \<lparr>sk_lambda = lam, sk_mu = m, sk_p = or_null p, sk_q = or_null q, sk_publicKey = pk\<rparr>"

definition sk_n :: "PrivateKey \<Rightarrow> int" where
  "sk_n sk = pk_n (sk_publicKey sk)"

record KeyPair =
  publicKey :: PublicKey
  privateKey :: PrivateKey

definition L :: "num \<Rightarrow> int \<Rightarrow> error + int" where
  "L a n =
     (case a of
        NaN \<Rightarrow> Inl TypeError_MixedTypes
      | Big v \<Rightarrow> if n = 0 then Inl RangeError_DivisionByZero else Inr ((v - 1) sdiv n))"

text \<open>The \<^verbatim>\<open>return\<close> of \<^verbatim>\<open>encrypt\<close>, for a given \<open>r\<close>.\<close>

definition encrypt_with :: "PublicKey \<Rightarrow> int \<Rightarrow> int \<Rightarrow> error + int" where
  "encrypt_with pk m r =
     (case modPow (pk_g pk) m (pk_n2 pk) of
        Inl e \<Rightarrow> Inl e
      | Inr gm \<Rightarrow>
          (case modPow r (pk_n pk) (pk_n2 pk) of
             Inl e \<Rightarrow> Inl e
           | Inr rn \<Rightarrow> mul_rem gm rn (pk_n2 pk)))"

text \<open>
  The loop of \<^verbatim>\<open>encrypt\<close> that draws \<open>r\<close> when none is given, run on the values that
  the successive calls of \<^verbatim>\<open>randBetween\<close> return. \<open>None\<close>: the values are used up and
  the loop has not ended.
\<close>

fun draw_r :: "int \<Rightarrow> int list \<Rightarrow> (error + int) option" where
  "draw_r n [] = None"
| "draw_r n (d # ds) =
     (case randBetween n 1 d of
        Inl e \<Rightarrow> Some (Inl e)
      | Inr r \<Rightarrow> if bcu_gcd r n \<noteq> 1 then draw_r n ds else Some (Inr r))"

definition encrypt :: "PublicKey \<Rightarrow> int \<Rightarrow> int option \<Rightarrow> int list \<Rightarrow> (error + int) option" where
  "encrypt pk m r draws =
     (case r of
        Some r' \<Rightarrow> Some (encrypt_with pk m r')
      | None \<Rightarrow>
          (case draw_r (pk_n pk) draws of
             None \<Rightarrow> None
           | Some (Inl e) \<Rightarrow> Some (Inl e)
           | Some (Inr r') \<Rightarrow> Some (encrypt_with pk m r')))"

text \<open>\<^verbatim>\<open>ciphertexts.reduce((sum, next) => sum * next % n2, 1n)\<close>\<close>

fun addition_reduce :: "int \<Rightarrow> int \<Rightarrow> int list \<Rightarrow> error + int" where
  "addition_reduce n2 sum_acc [] = Inr sum_acc"
| "addition_reduce n2 sum_acc (next # rest) =
     (if n2 = 0 then Inl RangeError_DivisionByZero
      else addition_reduce n2 ((sum_acc * next) smod n2) rest)"

definition addition :: "PublicKey \<Rightarrow> int list \<Rightarrow> error + int" where
  "addition pk ciphertexts = addition_reduce (pk_n2 pk) 1 ciphertexts"

definition multiply :: "PublicKey \<Rightarrow> int \<Rightarrow> int \<Rightarrow> error + num" where
  "multiply pk c k = modPow c k (pk_n2 pk)"

definition decrypt :: "PrivateKey \<Rightarrow> int \<Rightarrow> error + int" where
  "decrypt sk c =
     (case modPow c (sk_lambda sk) (pk_n2 (sk_publicKey sk)) of
        Inl e \<Rightarrow> Inl e
      | Inr a \<Rightarrow>
          (case L a (pk_n (sk_publicKey sk)) of
             Inl e \<Rightarrow> Inl e
           | Inr l \<Rightarrow> mul_rem (Big l) (sk_mu sk) (pk_n (sk_publicKey sk))))"

text \<open>
  \<^verbatim>\<open>getRandomFactor\<close>. \<^verbatim>\<open>null - 1n\<close> raises a TypeError. A \<^verbatim>\<open>NaN\<close> from \<^verbatim>\<open>modInv\<close>
  reaches \<^verbatim>\<open>modPow\<close> as its exponent: \<^verbatim>\<open>modPow\<close> returns \<^verbatim>\<open>NaN\<close> for the modulus zero
  and otherwise raises a RangeError in \<^verbatim>\<open>BigInt(b)\<close>.
\<close>

definition getRandomFactor :: "PrivateKey \<Rightarrow> int \<Rightarrow> error + num" where
  "getRandomFactor sk c =
     (if pk_g (sk_publicKey sk) \<noteq> sk_n sk + 1 then Inl RangeError_CannotRecover
      else (case decrypt sk c of
              Inl e \<Rightarrow> Inl e
            | Inr m \<Rightarrow>
                (case (sk_p sk, sk_q sk) of
                   (Some p, Some q) \<Rightarrow>
                     (let phi = (p - 1) * (q - 1);
                          nInvModPhi = modInv (sk_n sk) phi
                      in if pk_n2 (sk_publicKey sk) = 0 then Inl RangeError_DivisionByZero
                         else (let c1 = (c * (1 - m * sk_n sk)) smod pk_n2 (sk_publicKey sk)
                               in case nInvModPhi of
                                    Big e \<Rightarrow> modPow c1 e (sk_n sk)
                                  | NaN \<Rightarrow>
                                      if sk_n sk = 0 then Inr NaN
                                      else Inl RangeError_NotAnInteger))
                 | _ \<Rightarrow> Inl TypeError_MixedTypes)))"

definition multiplyOtherN2 :: "int \<Rightarrow> int \<Rightarrow> int \<Rightarrow> error + num" where
  "multiplyOtherN2 c k n2 = modPow c k n2"

text \<open>\<^verbatim>\<open>generateDualG\<close>, run on the values that the successive calls of
  \<^verbatim>\<open>randBetween\<close> return; \<open>None\<close> as for \<open>draw_r\<close>.\<close>

fun generateDualG :: "int \<Rightarrow> int \<Rightarrow> int list \<Rightarrow> (error + int) option" where
  "generateDualG n1 n2 [] = None"
| "generateDualG n1 n2 (d # ds) =
     (case randBetween n1 1 d of
        Inl e \<Rightarrow> Some (Inl e)
      | Inr r \<Rightarrow>
          if bcu_gcd r n1 \<noteq> 1 \<and> bcu_gcd r n2 \<noteq> 1 then generateDualG n1 n2 ds
          else Some (Inr r))"

definition keysFromPrimesSimple :: "int \<Rightarrow> int \<Rightarrow> KeyPair" where
  "keysFromPrimesSimple p q =
     (let n = p * q;
          g = n + 1;
          lam = (p - 1) * (q - 1);
          m = modInv lam n;
          pk = new_PublicKey n g;
          sk = new_PrivateKey lam m pk (Some p) (Some q)
      in \<lparr>publicKey = pk, privateKey = sk\<rparr>)"

text \<open>\<^verbatim>\<open>getGenerator\<close>, on the two values \<open>alpha\<close> and \<open>beta\<close> that \<^verbatim>\<open>randBetween\<close> returns.\<close>

definition getGenerator :: "int \<Rightarrow> int \<Rightarrow> int \<Rightarrow> int \<Rightarrow> error + int" where
  "getGenerator n n2 drawn1 drawn2 =
     (case randBetween n 1 drawn1 of
        Inl e \<Rightarrow> Inl e
      | Inr alpha \<Rightarrow>
          (case randBetween n 1 drawn2 of
             Inl e \<Rightarrow> Inl e
           | Inr beta \<Rightarrow>
               (case modPow beta n n2 of
                  Inl e \<Rightarrow> Inl e
                | Inr bn \<Rightarrow> mul_rem (Big (alpha * n + 1)) bn n2)))"

text \<open>\<^verbatim>\<open>keysFromPrimes\<close>: \<open>g\<close> is optional, and \<^verbatim>\<open>g || getGenerator(n, n2)\<close> also draws
  a generator when \<open>g\<close> is \<^verbatim>\<open>0n\<close>.\<close>

definition keysFromPrimes :: "int \<Rightarrow> int \<Rightarrow> int option \<Rightarrow> int \<Rightarrow> int \<Rightarrow> error + KeyPair" where
  "keysFromPrimes p q g drawn1 drawn2 =
     (let n = p * q;
          n2 = n ^ 2
      in case (case or_null g of Some g' \<Rightarrow> Inr g' | None \<Rightarrow> getGenerator n n2 drawn1 drawn2) of
           Inl e \<Rightarrow> Inl e
         | Inr g' \<Rightarrow>
             (let lam = bcu_lcm (p - 1) (q - 1)
              in case modPow g' lam n2 of
                   Inl e \<Rightarrow> Inl e
                 | Inr u \<Rightarrow>
                     (case L u n of
                        Inl e \<Rightarrow> Inl e
                      | Inr l \<Rightarrow>
                          (let m = modInv l n;
                               pk = new_PublicKey n g';
                               sk = new_PrivateKey lam m pk (Some p) (Some q)
                           in Inr \<lparr>publicKey = pk, privateKey = sk\<rparr>))))"

section \<open>Correctness of the arithmetic\<close>

subsection \<open>Truncating division on non-negative operands\<close>

lemma smod_nonneg: "0 \<le> a \<Longrightarrow> 0 \<le> n \<Longrightarrow> a smod n = a mod n" for a n :: int
  by (cases "a = 0") (simp_all add: signed_modulo_int_def)

lemma sdiv_nonneg: "0 \<le> a \<Longrightarrow> 0 \<le> n \<Longrightarrow> a sdiv n = a div n" for a n :: int
  by (cases "a = 0"; cases "n = 0") (simp_all add: signed_divide_int_def)

lemma toZn_pos: "0 < n \<Longrightarrow> toZn a n = Big (a mod n)"
proof -
  assume n: "0 < n"
  have eq: "a smod n = a mod n - n * of_bool (sgn a \<noteq> sgn n \<and> \<not> n dvd a)"
    by (rule signed_modulo_int_eq_modulo_int)
  have r: "0 \<le> a mod n" "a mod n < n"
    using n by simp_all
  show ?thesis
  proof (cases "sgn a \<noteq> sgn n \<and> \<not> n dvd a")
    case True
    with eq have "a smod n = a mod n - n" by simp
    moreover have "a mod n - n < 0" using r by linarith
    ultimately show ?thesis using n by (simp add: toZn_def Let_def)
  next
    case False
    with eq have "a smod n = a mod n" by simp
    moreover have "\<not> a mod n < 0" using r by linarith
    ultimately show ?thesis using n by (simp add: toZn_def Let_def)
  qed
qed

subsection \<open>The square-and-multiply loop\<close>

lemma nat_half_split: "0 < b \<Longrightarrow> nat b = 2 * nat (b div 2) + nat (b mod 2)" for b :: int
proof -
  assume b: "0 < b"
  have "nat b = nat (2 * (b div 2) + b mod 2)"
    by simp
  also have "\<dots> = nat (2 * (b div 2)) + nat (b mod 2)"
    using b by (intro nat_add_distrib) simp_all
  also have "nat (2 * (b div 2)) = 2 * nat (b div 2)"
    by (simp add: nat_mult_distrib)
  finally show ?thesis .
qed

lemma modPow_loop_mod:
  "0 < n \<Longrightarrow> 0 \<le> r \<Longrightarrow> 0 \<le> x \<Longrightarrow> modPow_loop r x b n mod n = (r * x ^ nat b) mod n"
proof (induction r x b n rule: modPow_loop.induct)
  case (1 result x b n)
  show ?case
  proof (cases "b > 0")
    case False
    then show ?thesis
      by (subst modPow_loop.simps) simp
  next
    case True
    define lsb where "lsb = b smod 2"
    define b' where "b' = b sdiv 2"
    define result' where "result' = (if lsb = 1 then (result * x) smod n else result)"
    define x' where "x' = (x * x) smod n"
    have lsb: "lsb = b mod 2" and b': "b' = b div 2"
      using True by (simp_all add: lsb_def b'_def smod_nonneg sdiv_nonneg)
    have x': "x' = (x * x) mod n"
      using "1.prems" by (simp add: x'_def smod_nonneg)
    have result': "result' = (if lsb = 1 then (result * x) mod n else result)"
      using "1.prems" by (simp add: result'_def smod_nonneg)
    have nonneg: "0 \<le> result'" "0 \<le> x'"
      using "1.prems" by (simp_all add: result' x')
    have unfold: "modPow_loop result x b n = modPow_loop result' x' b' n"
      using True by (subst modPow_loop.simps) (simp add: Let_def lsb_def b'_def result'_def x'_def)
    have IH: "modPow_loop result' x' b' n mod n = (result' * x' ^ nat b') mod n"
      using "1.IH" [OF True lsb_def b'_def result'_def x'_def "1.prems"(1) nonneg] .
    have b_eq: "nat b = 2 * nat b' + nat lsb"
      using True by (simp add: lsb b' nat_half_split)
    have "(result' * x' ^ nat b') mod n = (result' * (x * x) ^ nat b') mod n"
      unfolding x' by (metis mod_mult_right_eq power_mod)
    also have "\<dots> = (result * x ^ nat lsb * (x * x) ^ nat b') mod n"
    proof -
      have "lsb = 0 \<or> lsb = 1" using lsb by presburger
      then have "result' mod n = (result * x ^ nat lsb) mod n"
        by (auto simp: result')
      then show ?thesis by (rule mod_mult_cong) simp
    qed
    also have "\<dots> = (result * x ^ nat b) mod n"
    proof -
      have "x ^ nat b = x ^ (2 * nat b') * x ^ nat lsb"
        by (simp add: b_eq power_add)
      also have "x ^ (2 * nat b') = (x * x) ^ nat b'"
        by (simp add: power_mult power2_eq_square)
      finally have "x ^ nat b = x ^ nat lsb * (x * x) ^ nat b'"
        by (simp add: mult.commute)
      then show ?thesis
        by (simp add: mult.assoc)
    qed
    finally show ?thesis
      using unfold IH by simp
  qed
qed

lemma modPow_loop_range:
  "0 < n \<Longrightarrow> 0 \<le> r \<Longrightarrow> 0 \<le> x \<Longrightarrow> 0 < b \<Longrightarrow>
     0 \<le> modPow_loop r x b n \<and> modPow_loop r x b n < n"
proof (induction r x b n rule: modPow_loop.induct)
  case (1 result x b n)
  define lsb where "lsb = b smod 2"
  define b' where "b' = b sdiv 2"
  define result' where "result' = (if lsb = 1 then (result * x) smod n else result)"
  define x' where "x' = (x * x) smod n"
  have True: "b > 0" by fact
  have lsb: "lsb = b mod 2" and b': "b' = b div 2"
    using True by (simp_all add: lsb_def b'_def smod_nonneg sdiv_nonneg)
  have x': "x' = (x * x) mod n"
    using "1.prems" by (simp add: x'_def smod_nonneg)
  have result': "result' = (if lsb = 1 then (result * x) mod n else result)"
    using "1.prems" by (simp add: result'_def smod_nonneg)
  have nonneg: "0 \<le> result'" "0 \<le> x'"
    using "1.prems" by (simp_all add: result' x')
  have unfold: "modPow_loop result x b n = modPow_loop result' x' b' n"
    using True by (subst modPow_loop.simps) (simp add: Let_def lsb_def b'_def result'_def x'_def)
  show ?case
  proof (cases "0 < b'")
    case True
    from "1.IH" [OF \<open>b > 0\<close> lsb_def b'_def result'_def x'_def "1.prems"(1) nonneg True]
    show ?thesis unfolding unfold .
  next
    case False
    with \<open>b > 0\<close> have "b = 1" using b' by presburger
    then have "lsb = 1" using lsb by simp
    then have "result' = (result * x) mod n" by (simp add: result')
    moreover have "modPow_loop result' x' b' n = result'"
      using False by (subst modPow_loop.simps) simp
    ultimately show ?thesis
      unfolding unfold using "1.prems"(1) by simp
  qed
qed

lemma modPow_loop_eq:
  assumes "0 < n" "0 \<le> x" "0 < b"
  shows "modPow_loop 1 x b n = x ^ nat b mod n"
proof -
  have "modPow_loop 1 x b n mod n = (1 * x ^ nat b) mod n"
    using assms by (intro modPow_loop_mod) simp_all
  moreover have "modPow_loop 1 x b n mod n = modPow_loop 1 x b n"
    using modPow_loop_range [of n 1 x b] assms by simp
  ultimately show ?thesis by simp
qed

lemma modPow_loop_zero: "modPow_loop r x 0 n = r"
  by (subst modPow_loop.simps) simp

lemma modPow_nonneg:
  assumes "0 < n" "0 \<le> b"
  shows "modPow a b n = Inr (Big (if b = 0 then 1 else a ^ nat b mod n))"
proof (cases "b = 0")
  case True
  then show ?thesis
    using assms by (subst modPow.simps) (simp add: toZn_pos modPow_loop_zero)
next
  case False
  with assms have b: "0 < b" by simp
  have "modPow_loop 1 (a mod n) b n = (a mod n) ^ nat b mod n"
    using assms b by (intro modPow_loop_eq) simp_all
  also have "\<dots> = a ^ nat b mod n"
    by (simp add: power_mod)
  finally show ?thesis
    using assms b by (subst modPow.simps) (simp add: toZn_pos)
qed

lemma modPow_pos:
  assumes "1 < n" "0 \<le> b"
  shows "modPow a b n = Inr (Big (a ^ nat b mod n))"
  using assms modPow_nonneg [of n b a] by (cases "b = 0") simp_all

lemma modPow_neg:
  assumes "0 < n" "b < 0"
  shows "modPow a b n = Inr (modInv (a ^ nat (- b) mod n) n)"
proof -
  have "modPow (a mod n) (bcu_abs b) n = Inr (Big ((a mod n) ^ nat (- b) mod n))"
    using assms modPow_nonneg [of n "bcu_abs b" "a mod n"] by (simp add: bcu_abs_def)
  then show ?thesis
    using assms by (subst modPow.simps) (simp add: toZn_pos power_mod)
qed

subsection \<open>Extended gcd and modular inverse\<close>

lemma eGcd_loop_correct:
  "0 \<le> a \<Longrightarrow> 0 \<le> b \<Longrightarrow> a = a0 * u + b0 * v \<Longrightarrow> b = a0 * x + b0 * y \<Longrightarrow>
     eg_b (eGcd_loop a b x y u v) = gcd a b \<and>
     eg_b (eGcd_loop a b x y u v) =
       a0 * eg_x (eGcd_loop a b x y u v) + b0 * eg_y (eGcd_loop a b x y u v)"
proof (induction a b x y u v rule: eGcd_loop.induct)
  case (1 a b x y u v)
  show ?case
  proof (cases "a = 0")
    case True
    then have "eGcd_loop a b x y u v = \<lparr>eg_b = b, eg_x = x, eg_y = y\<rparr>"
      by (subst eGcd_loop.simps) simp
    with True "1.prems" show ?thesis
      by simp
  next
    case False
    define q where "q = b sdiv a"
    define r where "r = b smod a"
    define m where "m = x - u * q"
    define n where "n = y - v * q"
    have q: "q = b div a" and r: "r = b mod a"
      using "1.prems" by (simp_all add: q_def r_def sdiv_nonneg smod_nonneg)
    have unfold: "eGcd_loop a b x y u v = eGcd_loop r a u v m n"
      using False by (subst eGcd_loop.simps) (simp add: Let_def q_def r_def m_def n_def)
    have r0: "0 \<le> r"
      using "1.prems" False by (simp add: r)
    have "b = a * q + r"
      by (simp add: q r)
    then have "r = b - a * q"
      by simp
    also have "\<dots> = a0 * m + b0 * n"
      using "1.prems" by (simp add: m_def n_def algebra_simps)
    finally have req: "r = a0 * m + b0 * n" .
    have "gcd r a = gcd a b"
      unfolding r by (metis gcd.commute gcd_red_int)
    with "1.IH" [OF False q_def r_def m_def n_def r0 "1.prems"(1) req "1.prems"(3)]
    show ?thesis
      unfolding unfold by simp
  qed
qed

lemma eGcd_correct:
  assumes "0 < a" "0 < b"
  shows "\<exists>e. eGcd a b = Some e \<and> eg_b e = gcd a b \<and> eg_b e = a * eg_x e + b * eg_y e"
proof -
  have "eg_b (eGcd_loop a b 0 1 1 0) = gcd a b \<and>
        eg_b (eGcd_loop a b 0 1 1 0) =
          a * eg_x (eGcd_loop a b 0 1 1 0) + b * eg_y (eGcd_loop a b 0 1 1 0)"
    using assms by (intro eGcd_loop_correct) simp_all
  with assms show ?thesis
    by (simp add: eGcd_def)
qed

lemma modInv_Big:
  assumes "modInv a n = Big x"
  shows "0 < n \<and> 0 \<le> x \<and> x < n \<and> (a * x) mod n = 1 mod n \<and> coprime a n"
proof -
  from assms have n: "0 < n" and a: "a \<noteq> 0"
    by (auto simp: modInv_def split: if_splits)
  have z: "toZn a n = Big (a mod n)"
    using n by (rule toZn_pos)
  from assms n a z obtain e where e: "eGcd (a mod n) n = Some e" "eg_b e = 1"
    and x: "toZn (eg_x e) n = Big x"
    by (auto simp: modInv_def split: option.splits if_splits)
  from e(1) have pos: "0 < a mod n"
    by (auto simp: eGcd_def split: if_splits)
  from eGcd_correct [OF pos n] e
  have g: "gcd (a mod n) n = 1" and bez: "1 = (a mod n) * eg_x e + n * eg_y e"
    by auto
  from x n have xe: "x = eg_x e mod n"
    by (simp add: toZn_pos)
  have "(a * x) mod n = ((a mod n) * eg_x e) mod n"
    unfolding xe by (metis mod_mult_eq mod_mod_trivial)
  also have "\<dots> = ((a mod n) * eg_x e + n * eg_y e) mod n"
    by simp
  also have "\<dots> = 1 mod n"
    using bez by simp
  finally have inv: "(a * x) mod n = 1 mod n" .
  from g have "coprime a n"
    by (metis coprime_iff_gcd_eq_1 gcd.commute gcd_red_int)
  with n xe inv show ?thesis
    by simp
qed

lemma modInv_coprime:
  assumes "1 < n" "coprime a n"
  shows "\<exists>x. modInv a n = Big x"
proof -
  from assms have a: "a \<noteq> 0"
    by auto
  have z: "toZn a n = Big (a mod n)"
    using assms by (simp add: toZn_pos)
  have g: "gcd (a mod n) n = 1"
    using assms(2) by (metis coprime_iff_gcd_eq_1 gcd.commute gcd_red_int)
  have "a mod n \<noteq> 0"
  proof
    assume "a mod n = 0"
    with g have "\<bar>n\<bar> = 1" by simp
    with assms show False by simp
  qed
  moreover have "0 \<le> a mod n"
    using assms by simp
  ultimately have pos: "0 < a mod n"
    by linarith
  from eGcd_correct [OF pos] assms obtain e where
    e: "eGcd (a mod n) n = Some e" "eg_b e = gcd (a mod n) n"
    by force
  with g a assms z show ?thesis
    by (simp add: modInv_def toZn_pos)
qed

subsection \<open>The binary gcd computes the gcd\<close>

lemma and_one_zero_iff: "a AND 1 = 0 \<longleftrightarrow> even a" for a :: int
  by (simp add: and_one_eq even_iff_mod_2_eq_zero)

lemma or_and_one_zero_iff: "(a OR b) AND 1 = 0 \<longleftrightarrow> even a \<and> even b" for a b :: int
  by (simp add: and_one_zero_iff even_or_iff)

lemma gcd_shift_loop_correct:
  "0 < a \<Longrightarrow> 0 < b \<Longrightarrow> gcd_shift_loop a b s = (a', b', s') \<Longrightarrow>
     0 < a' \<and> 0 < b' \<and> s \<le> s' \<and> (odd a' \<or> odd b') \<and> gcd a b = 2 ^ nat (s' - s) * gcd a' b'"
proof (induction a b s rule: gcd_shift_loop.induct)
  case (1 a b shift)
  show ?case
  proof (cases "even a \<and> even b")
    case False
    then have "gcd_shift_loop a b shift = (a, b, shift)"
      by (subst gcd_shift_loop.simps) (auto simp: or_and_one_zero_iff)
    with "1.prems" False show ?thesis
      by auto
  next
    case True
    with "1.prems" have cond: "(a OR b) AND 1 = 0 \<and> (a \<noteq> 0 \<or> b \<noteq> 0)"
      by (simp add: or_and_one_zero_iff)
    then have unfold: "gcd_shift_loop a b shift = gcd_shift_loop (a div 2) (b div 2) (shift + 1)"
      by (subst gcd_shift_loop.simps) (simp add: drop_bit_eq_div)
    from True obtain k l where kl: "a = 2 * k" "b = 2 * l"
      by (auto elim!: evenE)
    with "1.prems" have pos: "0 < a div 2" "0 < b div 2"
      by simp_all
    from "1.IH" [OF cond] pos "1.prems"(3) unfold
    have IH: "0 < a' \<and> 0 < b' \<and> shift + 1 \<le> s' \<and> (odd a' \<or> odd b') \<and>
              gcd (a div 2) (b div 2) = 2 ^ nat (s' - (shift + 1)) * gcd a' b'"
      by (simp add: drop_bit_eq_div)
    have "gcd a b = 2 * gcd (a div 2) (b div 2)"
      using gcd_mult_distrib_int [of 2 k l] by (simp add: kl)
    also have "\<dots> = 2 * 2 ^ nat (s' - (shift + 1)) * gcd a' b'"
      using IH by simp
    also have "2 * 2 ^ nat (s' - (shift + 1)) = (2::int) ^ Suc (nat (s' - (shift + 1)))"
      by simp
    also have "Suc (nat (s' - (shift + 1))) = nat (s' - shift)"
      using IH by linarith
    finally show ?thesis
      using IH by simp
  qed
qed

lemma gcd_strip_odd: "odd a \<Longrightarrow> gcd_strip a = a"
  by (subst gcd_strip.simps) (simp add: and_one_zero_iff)

lemma gcd_strip_correct:
  "0 < a \<Longrightarrow> 0 < gcd_strip a \<and> odd (gcd_strip a) \<and> (odd b \<longrightarrow> gcd (gcd_strip a) b = gcd a b)"
proof (induction a rule: gcd_strip.induct)
  case (1 a)
  show ?case
  proof (cases "even a")
    case False
    with "1.prems" show ?thesis
      by (simp add: gcd_strip_odd)
  next
    case True
    with "1.prems" have cond: "a AND 1 = 0 \<and> a \<noteq> 0"
      by (simp add: and_one_zero_iff)
    then have unfold: "gcd_strip a = gcd_strip (a div 2)"
      by (subst gcd_strip.simps) (simp add: drop_bit_eq_div)
    from True obtain k where k: "a = 2 * k"
      by (auto elim!: evenE)
    with "1.prems" have pos: "0 < a div 2"
      by simp
    from "1.IH" [OF cond] pos
    have IH: "0 < gcd_strip (a div 2) \<and> odd (gcd_strip (a div 2)) \<and>
              (odd b \<longrightarrow> gcd (gcd_strip (a div 2)) b = gcd (a div 2) b)"
      by (simp add: drop_bit_eq_div)
    have "gcd (a div 2) b = gcd a b" if "odd b"
    proof -
      from that have "coprime b 2"
        by (simp add: coprime_right_2_iff_odd)
      then have "gcd (2 * k) b = gcd k b"
        by (rule gcd_mult_left_left_cancel)
      then show ?thesis
        by (simp add: k)
    qed
    with IH show ?thesis
      unfolding unfold by simp
  qed
qed

lemma gcd_sub_loop_correct:
  "0 < a \<Longrightarrow> odd a \<Longrightarrow> 0 < b \<Longrightarrow> gcd_sub_loop a b = gcd a b"
proof (induction a b rule: gcd_sub_loop.induct)
  case (1 a b)
  define b1 where "b1 = gcd_strip b"
  define x where "x = (if a > b1 then (b1, a) else (a, b1))"
  define a2 where "a2 = fst x"
  define b2 where "b2 = snd x"
  define b3 where "b3 = b2 - a2"
  have b1: "0 < b1" "odd b1" "gcd a b1 = gcd a b"
    using gcd_strip_correct [of b a] "1.prems" by (simp_all add: b1_def gcd.commute)
  have ab: "a2 = min a b1" "b2 = max a b1"
    by (auto simp: a2_def b2_def x_def)
  have a2: "0 < a2" "odd a2" "0 \<le> b3"
    using b1 "1.prems" by (auto simp: ab b3_def min_def max_def)
  have g: "gcd a2 b2 = gcd a b"
    using b1(3) by (auto simp: ab min_def max_def gcd.commute)
  have "gcd a2 (a2 + b3) = gcd a2 b3"
    by (rule gcd_add2)
  then have g3: "gcd a2 b3 = gcd a b"
    using g by (simp add: b3_def)
  have unfold: "gcd_sub_loop a b = (if b3 \<noteq> 0 \<and> 0 < a2 then gcd_sub_loop a2 b3 else a2)"
    by (subst gcd_sub_loop.simps)
       (simp add: Let_def b1_def [symmetric] x_def [symmetric] b3_def a2_def b2_def case_prod_beta)
  show ?case
  proof (cases "b3 = 0")
    case True
    with g3 a2 unfold show ?thesis
      by simp
  next
    case False
    with a2 have go: "b3 \<noteq> 0 \<and> 0 < a2" and pos: "0 < b3"
      by simp_all
    have "(a2, b2) = x"
      by (simp add: a2_def b2_def)
    from "1.IH" [OF b1_def x_def this b3_def go a2(1,2) pos] g3 go unfold
    show ?thesis
      by simp
  qed
qed

lemma bcu_gcd_eq: "bcu_gcd a b = gcd a b"
proof -
  define a' where "a' = bcu_abs a"
  define b' where "b' = bcu_abs b"
  have abs: "a' = \<bar>a\<bar>" "b' = \<bar>b\<bar>"
    by (simp_all add: a'_def b'_def bcu_abs_def)
  show ?thesis
  proof (cases "a' = 0 \<or> b' = 0")
    case True
    then show ?thesis
      using abs by (auto simp: bcu_gcd_def Let_def a'_def [symmetric] b'_def [symmetric])
  next
    case False
    then have pos: "0 < a'" "0 < b'"
      using abs by auto
    obtain a1 b1 shift where sh: "gcd_shift_loop a' b' 0 = (a1, b1, shift)"
      by (cases "gcd_shift_loop a' b' 0") auto
    from gcd_shift_loop_correct [OF pos sh]
    have s: "0 < a1" "0 < b1" "0 \<le> shift" "odd a1 \<or> odd b1"
      and g: "gcd a' b' = 2 ^ nat shift * gcd a1 b1"
      by simp_all
    define a2 where "a2 = gcd_strip a1"
    have a2: "0 < a2" "odd a2"
      using gcd_strip_correct [of a1] s(1) by (simp_all add: a2_def)
    have "gcd a2 b1 = gcd a1 b1"
    proof (cases "odd a1")
      case True
      then show ?thesis by (simp add: a2_def gcd_strip_odd)
    next
      case False
      with s(4) have "odd b1" by simp
      with gcd_strip_correct [of a1 b1] s(1) show ?thesis
        by (simp add: a2_def)
    qed
    with gcd_sub_loop_correct [OF a2 s(2)]
    have "gcd_sub_loop a2 b1 = gcd a1 b1"
      by simp
    then have "push_bit (nat shift) (gcd_sub_loop a2 b1) = gcd a' b'"
      by (simp add: push_bit_eq_mult g)
    moreover have "gcd a' b' = gcd a b"
      by (simp add: abs)
    ultimately show ?thesis
      using False sh
      by (simp add: bcu_gcd_def Let_def a'_def [symmetric] b'_def [symmetric] a2_def)
  qed
qed

lemma bcu_lcm_eq: "bcu_lcm a b = lcm a b"
proof (cases "a = 0 \<and> b = 0")
  case True
  then show ?thesis by (simp add: bcu_lcm_def)
next
  case False
  then have "0 < gcd a b"
    by (simp add: less_le)
  then have "\<bar>a * b\<bar> sdiv gcd a b = \<bar>a * b\<bar> div gcd a b"
    by (intro sdiv_nonneg) simp_all
  moreover have "bcu_abs (a * b) = \<bar>a * b\<bar>"
    by (simp add: bcu_abs_def)
  ultimately have "bcu_lcm a b = \<bar>a * b\<bar> div gcd a b"
    using False by (simp add: bcu_lcm_def bcu_gcd_eq)
  then show ?thesis
    by (simp add: lcm_altdef_int abs_mult)
qed

section \<open>Claims about the helpers\<close>

lemma draw_r_coprime:
  "draw_r n draws = Some (Inr r) \<Longrightarrow> bcu_gcd r n = 1 \<and> r \<in> set draws"
  by (induction draws) (auto simp: randBetween_def split: if_splits)

lemma draw_r_returns:
  "1 < n \<Longrightarrow> \<exists>d \<in> set draws. bcu_gcd d n = 1 \<Longrightarrow> \<exists>r. draw_r n draws = Some (Inr r)"
  by (induction draws) (auto simp: randBetween_def)

lemma addition_reduce_foldl:
  "n2 \<noteq> 0 \<Longrightarrow>
     addition_reduce n2 acc cs = Inr (foldl (\<lambda>s c. (s * c) smod n2) acc cs)"
  by (induction cs arbitrary: acc) simp_all

text \<open>
  C5. Every value returned by \<^verbatim>\<open>generateDualG(n1, n2)\<close> is coprime to both moduli. The
  loop repeats only while \<^emph>\<open>both\<close> gcds differ from one, so it stops at a value coprime
  to one modulus only: for the moduli \<open>15\<close> and \<open>77\<close> and the first draw \<open>7\<close> it
  returns \<open>7\<close>, which divides \<open>77\<close>.
\<close>

theorem generateDualG_returns_shared_factor:
  "generateDualG 15 77 [7] = Some (Inr 7) \<and> bcu_gcd 7 15 = 1 \<and> bcu_gcd 7 77 = 7"
  by code_simp

text \<open>
  C7. \<^verbatim>\<open>modPow(a, b, n)\<close> is \<open>a ^ b mod n\<close> and lies in \<open>[0, n)\<close> for \<open>n > 0\<close> and
  \<open>b \<ge> 0\<close>. For the modulus one and the exponent zero the loop is skipped and the
  initial \<^verbatim>\<open>result = 1n\<close> is returned unreduced: \<open>1\<close> is not in \<open>[0, 1)\<close> and is not
  \<open>5 ^ 0 mod 1 = 0\<close>.
\<close>

theorem modPow_modulus_one:
  "modPow 5 0 1 = Inr (Big 1) \<and> (5 :: int) ^ nat 0 mod 1 = 0 \<and> \<not> (1 :: int) < 1"
  by code_simp

lemma draw_r_first:
  "1 < n \<Longrightarrow>
     draw_r n draws =
       (case dropWhile (\<lambda>d. gcd d n \<noteq> 1) draws of [] \<Rightarrow> None | r # _ \<Rightarrow> Some (Inr r))"
  by (induction draws) (simp_all add: randBetween_def bcu_gcd_eq)

text \<open>
  C9. The gcd that the code computes is the gcd. For a positive modulus \<open>n\<close>, the gcd of
  \<open>r\<close> and \<open>n\<close> is one exactly when the gcd of \<open>r\<close> and \<open>n\<^sup>2\<close> is; so every \<open>r\<close> that the
  loop of \<^verbatim>\<open>encrypt\<close> ends with, which is the first drawn value whose gcd with \<open>n\<close> is
  one, is coprime to \<open>n\<close> and to the cached \<open>n\<^sup>2\<close> of the key, and the loop ends as soon as
  such a value is drawn.
\<close>

theorem gcd_n_iff_gcd_n2:
  assumes "0 < n"
  shows "bcu_gcd r n = gcd r n \<and> bcu_gcd r (n ^ 2) = gcd r (n ^ 2) \<and>
         (gcd r n = 1 \<longleftrightarrow> gcd r (n ^ 2) = 1) \<and>
         (draw_r (pk_n (new_PublicKey n g)) draws = Some (Inr r') \<longrightarrow>
            r' \<in> set draws \<and> gcd r' n = 1 \<and> gcd r' (pk_n2 (new_PublicKey n g)) = 1 \<and>
            coprime r' (n ^ 2)) \<and>
         (1 < n \<longrightarrow>
            draw_r (pk_n (new_PublicKey n g)) draws =
              (case dropWhile (\<lambda>d. gcd d n \<noteq> 1) draws of
                 [] \<Rightarrow> None
               | r' # _ \<Rightarrow> Some (Inr r'))) \<and>
         (1 < n \<and> (\<exists>d \<in> set draws. gcd d n = 1) \<longrightarrow>
            (\<exists>r'. draw_r (pk_n (new_PublicKey n g)) draws = Some (Inr r')))"
proof -
  have iff: "gcd x n = 1 \<longleftrightarrow> gcd x (n ^ 2) = 1" for x
  proof -
    have "coprime x (n ^ 2) \<longleftrightarrow> coprime x n"
      by (simp add: coprime_power_right_iff)
    then show ?thesis
      by (simp add: coprime_iff_gcd_eq_1)
  qed
  have loop: "r' \<in> set draws \<and> gcd r' n = 1 \<and> gcd r' (n ^ 2) = 1 \<and> coprime r' (n ^ 2)"
    if "draw_r n draws = Some (Inr r')"
  proof -
    from draw_r_coprime [OF that] have "r' \<in> set draws" "gcd r' n = 1"
      by (simp_all add: bcu_gcd_eq)
    with iff [of r'] show ?thesis
      by (simp add: coprime_iff_gcd_eq_1)
  qed
  have first: "draw_r n draws =
      (case dropWhile (\<lambda>d. gcd d n \<noteq> 1) draws of [] \<Rightarrow> None | r' # _ \<Rightarrow> Some (Inr r'))"
    if "1 < n"
    using that by (rule draw_r_first)
  have returns: "\<exists>r'. draw_r n draws = Some (Inr r')"
    if "1 < n" "\<exists>d \<in> set draws. gcd d n = 1"
  proof -
    from that(2) have "\<exists>d \<in> set draws. bcu_gcd d n = 1"
      by (simp add: bcu_gcd_eq)
    with that(1) show ?thesis
      by (rule draw_r_returns)
  qed
  have pk: "pk_n (new_PublicKey n g) = n" "pk_n2 (new_PublicKey n g) = n ^ 2"
    by (simp_all add: new_PublicKey_def)
  show ?thesis
    unfolding pk using iff [of r] loop first returns
    by (intro conjI impI) (simp_all add: bcu_gcd_eq)
qed

theorem gcd_n_iff_gcd_n2_witness:
  "bcu_gcd 2 143 = 1 \<and> gcd (2 :: int) 143 = 1 \<and> gcd (2 :: int) (143 ^ 2) = 1 \<and>
   draw_r (pk_n (new_PublicKey 143 144)) [11, 2] = Some (Inr 2) \<and>
   gcd 2 (pk_n2 (new_PublicKey 143 144)) = 1 \<and> coprime (2 :: int) (143 ^ 2)"
proof -
  have d: "draw_r (pk_n (new_PublicKey 143 144)) [11, 2] = Some (Inr 2)"
    by code_simp
  have g: "bcu_gcd 2 143 = 1"
    by code_simp
  from gcd_n_iff_gcd_n2 [of 143 2 144 "[11, 2]" 2] d g show ?thesis
    by simp
qed

text \<open>
  C10. \<^verbatim>\<open>addition\<close> takes any number of ciphertexts: on a key with a non-zero modulus
  it raises nothing and returns the left fold of \<open>(s * c) % n\<^sup>2\<close> from \<open>1\<close>; with no
  argument that is \<open>1\<close>, with one argument \<open>c\<close> it is \<open>c % n\<^sup>2\<close>, which is \<open>c mod n\<^sup>2\<close> for
  a ciphertext (a non-negative \<open>c\<close>).
\<close>

theorem addition_any_arity:
  assumes "n \<noteq> 0"
  shows "addition (new_PublicKey n g) cs = Inr (foldl (\<lambda>s c. (s * c) smod n ^ 2) 1 cs) \<and>
         addition (new_PublicKey n g) [] = Inr 1 \<and>
         addition (new_PublicKey n g) [c] = Inr (c smod n ^ 2) \<and>
         (0 \<le> c \<longrightarrow> addition (new_PublicKey n g) [c] = Inr (c mod n ^ 2))"
  using assms by (simp add: addition_def new_PublicKey_def addition_reduce_foldl smod_nonneg)

theorem addition_any_arity_witness:
  "addition (new_PublicKey 143 144) [] = Inr 1 \<and>
   addition (new_PublicKey 143 144) [20450] = Inr 1 \<and>
   addition (new_PublicKey 143 144) [3, 5, 7] = Inr 105"
proof -
  have "foldl (\<lambda>s c. (s * c) smod 143 ^ 2) 1 [3, 5, 7] = (105 :: int)"
    by (simp add: smod_nonneg)
  with addition_any_arity [of 143 144 "[3, 5, 7]" 20450] show ?thesis
    by simp
qed

section \<open>Number theory for the scheme\<close>

text \<open>Primality of a \<^verbatim>\<open>bigint\<close>, by trial division.\<close>

definition is_prime :: "int \<Rightarrow> bool" where
  "is_prime p \<longleftrightarrow> 1 < p \<and> (\<forall>d \<in> {2..<p}. \<not> d dvd p)"

lemma is_prime_coprime:
  assumes "is_prime p" "\<not> p dvd a"
  shows "coprime p a"
proof -
  define d where "d = gcd p a"
  from assms(1) have p: "1 < p"
    by (simp add: is_prime_def)
  have dp: "d dvd p" and da: "d dvd a" and d0: "0 \<le> d"
    by (simp_all add: d_def)
  from dp p have "d \<noteq> 0"
    by auto
  from dp p have "d \<le> p"
    by (intro zdvd_imp_le) simp_all
  have "d \<noteq> p"
    using da assms(2) by auto
  have "\<not> (2 \<le> d \<and> d < p)"
    using assms(1) dp by (auto simp: is_prime_def)
  with \<open>d \<le> p\<close> \<open>d \<noteq> p\<close> \<open>d \<noteq> 0\<close> d0 have "d = 1"
    by linarith
  then show ?thesis
    by (simp add: d_def coprime_iff_gcd_eq_1)
qed

lemma is_prime_dvd_mult:
  assumes "is_prime p" "p dvd a * b"
  shows "p dvd a \<or> p dvd b"
proof (cases "p dvd a")
  case False
  with assms(1) have "coprime p a"
    by (rule is_prime_coprime)
  with assms(2) show ?thesis
    by (simp add: coprime_dvd_mult_right_iff)
qed simp

lemma is_prime_distinct_coprime:
  assumes "is_prime p" "is_prime q" "p \<noteq> q"
  shows "coprime p q"
proof (rule is_prime_coprime [OF assms(1)])
  show "\<not> p dvd q"
  proof
    assume pq: "p dvd q"
    from assms have p: "1 < p" and q: "1 < q"
      by (simp_all add: is_prime_def)
    from pq q have "p \<le> q"
      by (intro zdvd_imp_le) simp_all
    with assms(3) p have "p \<in> {2..<q}"
      by simp
    with assms(2) pq show False
      by (auto simp: is_prime_def)
  qed
qed

lemma is_prime_dvd_choose:
  assumes "is_prime p" "0 < k" "k < nat p"
  shows "p dvd int (nat p choose k)"
proof -
  from assms(1) have p: "1 < p"
    by (simp add: is_prime_def)
  from assms(2) obtain k' where k: "k = Suc k'"
    by (cases k) simp_all
  have "Suc k' * (nat p choose Suc k') = nat p * (nat p - 1 choose k')"
    by (rule binomial_absorption)
  then have "int (Suc k') * int (nat p choose k) = p * int (nat p - 1 choose k')"
    using p unfolding k by (metis int_nat_eq less_imp_le of_nat_mult order.strict_trans zero_less_one)
  then have "p dvd int (Suc k') * int (nat p choose k)"
    by simp
  moreover have "\<not> p dvd int (Suc k')"
  proof
    assume "p dvd int (Suc k')"
    then have "p \<le> int (Suc k')"
      by (intro zdvd_imp_le) simp_all
    with assms(3) k show False
      by linarith
  qed
  ultimately show ?thesis
    using is_prime_dvd_mult [OF assms(1)] by blast
qed

lemma is_prime_freshman:
  assumes "is_prime p"
  shows "p dvd (x + 1) ^ nat p - (x ^ nat p + 1)"
proof -
  define P where "P = nat p"
  from assms have P: "1 < P"
    by (simp add: is_prime_def P_def)
  define f where "f k = int (P choose k) * x ^ k" for k
  define h where "h k = (if k = 0 \<or> k = P then x ^ k else 0)" for k
  have "(x + 1) ^ P = (\<Sum>k\<le>P. f k)"
    by (simp add: binomial_ring f_def)
  moreover have "x ^ P + 1 = (\<Sum>k\<le>P. h k)"
  proof -
    have "(\<Sum>k\<le>P. h k) = (\<Sum>k\<in>{0, P}. h k)"
      by (rule sum.mono_neutral_right) (auto simp: h_def)
    also have "\<dots> = x ^ P + 1"
      using P by (simp add: h_def)
    finally show ?thesis
      by simp
  qed
  ultimately have "(x + 1) ^ P - (x ^ P + 1) = (\<Sum>k\<le>P. f k - h k)"
    by (simp add: sum_subtractf)
  moreover have "p dvd (\<Sum>k\<le>P. f k - h k)"
  proof (rule dvd_sum)
    fix k assume "k \<in> {..P}"
    show "p dvd f k - h k"
    proof (cases "k = 0 \<or> k = P")
      case True
      then show ?thesis
        by (auto simp: f_def h_def)
    next
      case False
      with \<open>k \<in> {..P}\<close> have "0 < k" "k < nat p"
        by (auto simp: P_def)
      with assms have "p dvd int (nat p choose k)"
        by (rule is_prime_dvd_choose)
      with False show ?thesis
        by (simp add: f_def h_def P_def)
    qed
  qed
  ultimately show ?thesis
    by (simp add: P_def)
qed

lemma fermat_nat:
  assumes "is_prime p"
  shows "p dvd int a ^ nat p - int a"
proof (induction a)
  case 0
  from assms have "0 < nat p"
    by (simp add: is_prime_def)
  then show ?case
    by (simp add: power_0_left)
next
  case (Suc a)
  define A where "A = (int a + 1) ^ nat p - (int a ^ nat p + 1)"
  define B where "B = int a ^ nat p - int a"
  have "p dvd A"
    unfolding A_def using assms by (rule is_prime_freshman)
  moreover have "p dvd B"
    unfolding B_def by (rule Suc.IH)
  moreover have "int (Suc a) ^ nat p - int (Suc a) = A + B"
    by (simp add: A_def B_def add.commute)
  ultimately show ?case
    by (simp only: dvd_add)
qed

lemma fermat_int:
  assumes "is_prime p"
  shows "a ^ nat p mod p = a mod p"
proof -
  from assms have p: "0 < p"
    by (simp add: is_prime_def)
  define b where "b = nat (a mod p)"
  have b: "int b = a mod p"
    using p by (simp add: b_def)
  from fermat_nat [OF assms, of b] have "(a mod p) ^ nat p mod p = (a mod p) mod p"
    unfolding b by (simp only: mod_eq_dvd_iff)
  then show ?thesis
    by (simp add: power_mod)
qed

lemma fermat_little:
  assumes "is_prime p" "\<not> p dvd a"
  shows "a ^ nat (p - 1) mod p = 1"
proof -
  from assms have p: "1 < p"
    by (simp add: is_prime_def)
  then have "nat p = Suc (nat (p - 1))"
    by simp
  then have "a ^ nat p - a = a * (a ^ nat (p - 1) - 1)"
    by (simp add: algebra_simps)
  moreover have "p dvd a ^ nat p - a"
    using fermat_int [OF assms(1), of a] by (simp add: mod_eq_dvd_iff)
  ultimately have "p dvd a * (a ^ nat (p - 1) - 1)"
    by simp
  with is_prime_dvd_mult [OF assms(1)] assms(2) have "p dvd a ^ nat (p - 1) - 1"
    by blast
  then have "a ^ nat (p - 1) mod p = 1 mod p"
    by (simp add: mod_eq_dvd_iff)
  with p show ?thesis
    by simp
qed

lemma power_one_mod:
  assumes "x mod m = 1 mod m"
  shows "x ^ k mod m = 1 mod (m :: int)"
proof -
  have "x ^ k mod m = (x mod m) ^ k mod m"
    by (simp add: power_mod)
  also have "\<dots> = 1 mod m"
    unfolding assms by (simp add: power_mod)
  finally show ?thesis .
qed

lemma is_prime_power_multiple:
  assumes "is_prime p" "\<not> p dvd a" "p - 1 dvd l" "0 \<le> l"
  shows "p dvd a ^ nat l - 1"
proof -
  from assms(1) have p: "1 < p"
    by (simp add: is_prime_def)
  from assms(3) obtain t where t: "l = (p - 1) * t" ..
  with assms(4) p have "0 \<le> t"
    by (simp add: zero_le_mult_iff)
  then have "nat l = nat (p - 1) * nat t"
    using p by (simp add: t nat_mult_distrib)
  then have "a ^ nat l = (a ^ nat (p - 1)) ^ nat t"
    by (simp add: power_mult)
  moreover have "(a ^ nat (p - 1)) ^ nat t mod p = 1 mod p"
    using fermat_little [OF assms(1,2)] p by (rule_tac power_one_mod) simp
  ultimately show ?thesis
    by (simp add: mod_eq_dvd_iff)
qed

text \<open>The exponent \<open>l\<close> kills every unit modulo \<open>p * q\<close>.\<close>

lemma carmichael_pq:
  assumes "is_prime p" "is_prime q" "p \<noteq> q" "coprime a (p * q)"
    and "p - 1 dvd l" "q - 1 dvd l" "0 \<le> l"
  shows "a ^ nat l mod (p * q) = 1"
proof -
  from assms have pq: "1 < p" "1 < q"
    by (simp_all add: is_prime_def)
  then have n: "1 < p * q"
    by (simp add: less_1_mult)
  from assms(4) have "coprime a p" "coprime a q"
    by simp_all
  with pq have "\<not> p dvd a" "\<not> q dvd a"
    by (auto dest: coprime_common_divisor [of a _ ] simp: coprime_absorb_right)
  then have "p dvd a ^ nat l - 1" "q dvd a ^ nat l - 1"
    using assms by (auto intro: is_prime_power_multiple)
  moreover have "coprime p q"
    using assms(1-3) by (rule is_prime_distinct_coprime)
  ultimately have "p * q dvd a ^ nat l - 1"
    by (simp add: divides_mult)
  then have "a ^ nat l mod (p * q) = 1 mod (p * q)"
    by (simp add: mod_eq_dvd_iff)
  with n show ?thesis
    by simp
qed

text \<open>Lifting from \<open>n\<close> to \<open>n\<^sup>2\<close>.\<close>

lemma one_plus_multiple_power:
  "(1 + k * n) ^ t mod n ^ 2 = (1 + int t * k * n) mod n ^ 2" for k n :: int
proof (induction t)
  case 0
  show ?case by simp
next
  case (Suc t)
  have "(1 + k * n) ^ Suc t mod n ^ 2 = ((1 + k * n) ^ t mod n ^ 2 * (1 + k * n)) mod n ^ 2"
    by (metis mod_mult_right_eq mult.commute power_Suc)
  also have "\<dots> = ((1 + int t * k * n) * (1 + k * n)) mod n ^ 2"
    unfolding Suc.IH by (simp add: mod_mult_left_eq)
  also have "(1 + int t * k * n) * (1 + k * n) = (1 + int (Suc t) * k * n) + n ^ 2 * (int t * k * k)"
    by (simp add: algebra_simps power2_eq_square)
  also have "\<dots> mod n ^ 2 = (1 + int (Suc t) * k * n) mod n ^ 2"
    by simp
  finally show ?case .
qed

lemma lift_to_square:
  assumes "x mod n = 1 mod n" "0 \<le> n"
  shows "x ^ nat n mod n ^ 2 = 1 mod n ^ 2"
proof -
  from assms(1) have "n dvd x - 1"
    by (simp add: mod_eq_dvd_iff)
  then obtain k where "x - 1 = n * k" ..
  then have x: "x = 1 + k * n"
    by (simp add: algebra_simps)
  have "x ^ nat n mod n ^ 2 = (1 + int (nat n) * k * n) mod n ^ 2"
    unfolding x by (rule one_plus_multiple_power)
  also have "1 + int (nat n) * k * n = 1 + n ^ 2 * k"
    using assms(2) by (simp add: power2_eq_square)
  also have "\<dots> mod n ^ 2 = 1 mod n ^ 2"
    by simp
  finally show ?thesis .
qed

section \<open>Decryption of products of ciphertexts\<close>

text \<open>
  \<open>carries n lam K c x\<close>: raised to the private exponent, \<open>c\<close> is \<open>1 + x * K * n\<close>
  modulo \<open>n\<^sup>2\<close>. With \<open>K\<close> the value of \<open>L\<close> on the generator, \<open>x\<close> is the plaintext of \<open>c\<close>.
\<close>

definition carries :: "int \<Rightarrow> int \<Rightarrow> int \<Rightarrow> int \<Rightarrow> int \<Rightarrow> bool" where
  "carries n lam K c x \<longleftrightarrow> n ^ 2 dvd c ^ nat lam - (1 + x * K * n)"

lemma carries_mod: "carries n lam K (c mod n ^ 2) x \<longleftrightarrow> carries n lam K c x"
proof -
  have "(c mod n ^ 2) ^ nat lam mod n ^ 2 = c ^ nat lam mod n ^ 2"
    by (simp add: power_mod)
  then show ?thesis
    unfolding carries_def by (simp only: mod_eq_dvd_iff [symmetric])
qed

lemma carries_one: "carries n lam K 1 0"
  by (simp add: carries_def)

lemma carries_mult:
  assumes "carries n lam K c1 x1" "carries n lam K c2 x2"
  shows "carries n lam K (c1 * c2) (x1 + x2)"
proof -
  from assms obtain t1 t2 where
    t: "c1 ^ nat lam - (1 + x1 * K * n) = n ^ 2 * t1" "c2 ^ nat lam - (1 + x2 * K * n) = n ^ 2 * t2"
    unfolding carries_def dvd_def by blast
  then have c: "c1 ^ nat lam = 1 + x1 * K * n + n ^ 2 * t1" "c2 ^ nat lam = 1 + x2 * K * n + n ^ 2 * t2"
    by simp_all
  have "(c1 * c2) ^ nat lam - (1 + (x1 + x2) * K * n) =
        n ^ 2 * (x1 * x2 * K * K + (1 + x1 * K * n) * t2 + (1 + x2 * K * n) * t1 + n ^ 2 * t1 * t2)"
    unfolding power_mult_distrib c by (simp add: algebra_simps power2_eq_square)
  then show ?thesis
    unfolding carries_def by simp
qed

lemma carries_power:
  assumes "carries n lam K c x"
  shows "carries n lam K (c ^ k) (int k * x)"
proof (induction k)
  case 0
  show ?case by (simp add: carries_one)
next
  case (Suc k)
  have "carries n lam K (c * c ^ k) (x + int k * x)"
    using assms Suc by (rule carries_mult)
  then show ?case
    by (simp add: algebra_simps)
qed

lemma carries_inverse:
  assumes "carries n lam K c x" "(c * c') mod n ^ 2 = 1 mod n ^ 2"
  shows "carries n lam K c' (- x)"
proof -
  from assms(1) obtain t where "c ^ nat lam - (1 + x * K * n) = n ^ 2 * t"
    unfolding carries_def dvd_def by blast
  then have c: "c ^ nat lam = 1 + x * K * n + n ^ 2 * t"
    by simp
  have "(c * c') ^ nat lam mod n ^ 2 = 1 mod n ^ 2"
    using assms(2) by (rule power_one_mod)
  then have "n ^ 2 dvd (c * c') ^ nat lam - 1"
    by (simp add: mod_eq_dvd_iff)
  then obtain s where "(c * c') ^ nat lam - 1 = n ^ 2 * s" ..
  then have s: "c ^ nat lam * c' ^ nat lam = 1 + n ^ 2 * s"
    by (simp add: power_mult_distrib)
  have "c' ^ nat lam - (1 + (- x) * K * n) =
        c' ^ nat lam * (1 - (1 + x * K * n) * (1 - x * K * n))
        + (1 - x * K * n) * (c ^ nat lam * c' ^ nat lam - 1)
        - (1 - x * K * n) * c' ^ nat lam * (c ^ nat lam - (1 + x * K * n))"
    by (simp add: algebra_simps)
  also have "\<dots> = n ^ 2 * (c' ^ nat lam * (x * x * K * K) + (1 - x * K * n) * s
                      - (1 - x * K * n) * c' ^ nat lam * t)"
    unfolding s unfolding c by (simp add: algebra_simps power2_eq_square)
  finally show ?thesis
    unfolding carries_def by simp
qed

lemma carries_lift:
  assumes "r ^ nat lam mod n = 1 mod n" "0 \<le> n"
  shows "carries n lam K (r ^ nat n) 0"
proof -
  have "(r ^ nat lam) ^ nat n mod n ^ 2 = 1 mod n ^ 2"
    using assms by (rule lift_to_square)
  moreover have "(r ^ nat lam) ^ nat n = (r ^ nat n) ^ nat lam"
    by (simp add: power_mult [symmetric] mult.commute)
  ultimately show ?thesis
    by (simp add: carries_def mod_eq_dvd_iff)
qed

lemma smod_mod_same: "(a smod b) mod b = a mod b" for a b :: int
  by (simp add: signed_modulo_int_eq_modulo_int)

lemma square_gt_1: "1 < n \<Longrightarrow> 1 < n ^ 2" for n :: int
  by (simp add: power2_eq_square less_1_mult)

text \<open>What \<^verbatim>\<open>decrypt\<close> returns on a ciphertext that carries \<open>x\<close>.\<close>

lemma decrypt_carries:
  assumes n: "1 < n" and lam: "0 \<le> lam" and mu: "0 \<le> mu" "(K * mu) mod n = 1"
    and sk: "sk_lambda sk = lam" "sk_mu sk = Big mu" "sk_publicKey sk = new_PublicKey n g"
    and c: "carries n lam K c x"
  shows "decrypt sk c = Inr (x mod n)"
proof -
  define u where "u = c ^ nat lam mod n ^ 2"
  have n2: "1 < n ^ 2"
    using n by (rule square_gt_1)
  have pow: "modPow c lam (n ^ 2) = Inr (Big u)"
    using n2 lam by (simp add: modPow_pos u_def)
  have u_eq: "u = (1 + x * K * n) mod n ^ 2"
    using c by (simp add: carries_def u_def mod_eq_dvd_iff)
  have "u mod n = (1 + x * K * n) mod n"
    unfolding u_eq by (simp add: mod_mod_cancel)
  then have u1: "u mod n = 1"
    using n by simp
  have "0 < n ^ 2"
    using n2 by linarith
  then have u0: "0 \<le> u"
    by (simp add: u_def)
  have "u \<noteq> 0"
    using u1 by auto
  with u0 have upos: "0 \<le> u - 1"
    by simp
  define l where "l = (u - 1) div n"
  have "n dvd u - 1"
    using u1 n by (simp add: mod_eq_dvd_iff [symmetric])
  then have ul: "u = 1 + n * l"
    by (simp add: l_def)
  have l0: "0 \<le> l"
    using upos n by (simp add: l_def pos_imp_zdiv_nonneg_iff)
  have L: "L (Big u) n = Inr l"
    using n upos by (simp add: L_def l_def sdiv_nonneg)
  have "n ^ 2 dvd u - (1 + x * K * n)"
    unfolding u_eq by (simp add: mod_eq_dvd_iff [symmetric])
  then have "n * n dvd n * (l - x * K)"
    by (simp add: ul power2_eq_square algebra_simps)
  then have "n dvd l - x * K"
    using n by simp
  then have "l mod n = (x * K) mod n"
    by (simp add: mod_eq_dvd_iff)
  then have "(l * mu) mod n = (x * K * mu) mod n"
    by (rule mod_mult_cong) simp
  also have "x * K * mu = x * (K * mu)"
    by simp
  also have "(x * (K * mu)) mod n = (x * ((K * mu) mod n)) mod n"
    by (simp add: mod_mult_right_eq)
  finally have res: "(l * mu) mod n = x mod n"
    using mu by simp
  have "mul_rem (Big l) (Big mu) n = Inr ((l * mu) mod n)"
    using n l0 mu by (simp add: smod_nonneg)
  with pow L res show ?thesis
    by (simp add: decrypt_def sk new_PublicKey_def)
qed

lemma encrypt_with_value:
  assumes "1 < n" "0 \<le> m"
  shows "encrypt_with (new_PublicKey n g) m r = Inr ((g ^ nat m * r ^ nat n) mod n ^ 2)"
proof -
  have n2: "1 < n ^ 2"
    using assms(1) by (rule square_gt_1)
  have "modPow g m (n ^ 2) = Inr (Big (g ^ nat m mod n ^ 2))"
    using n2 assms by (simp add: modPow_pos)
  moreover have "modPow r n (n ^ 2) = Inr (Big (r ^ nat n mod n ^ 2))"
    using n2 assms by (simp add: modPow_pos)
  moreover have "(g ^ nat m mod n ^ 2 * (r ^ nat n mod n ^ 2)) smod n ^ 2 =
                 (g ^ nat m * r ^ nat n) mod n ^ 2"
  proof -
    have pos: "0 < n ^ 2"
      using n2 by linarith
    then have "0 \<le> g ^ nat m mod n ^ 2 * (r ^ nat n mod n ^ 2)"
      by simp
    then have "(g ^ nat m mod n ^ 2 * (r ^ nat n mod n ^ 2)) smod n ^ 2 =
               (g ^ nat m mod n ^ 2 * (r ^ nat n mod n ^ 2)) mod n ^ 2"
      using pos by (intro smod_nonneg) simp_all
    then show ?thesis
      by (simp add: mod_mult_eq)
  qed
  ultimately show ?thesis
    using assms(1) by (simp add: encrypt_with_def new_PublicKey_def)
qed

section \<open>Valid key pairs\<close>

text \<open>
  A valid key pair for the primes \<open>p \<noteq> q\<close>: what \<^verbatim>\<open>keysFromPrimesSimple(p, q)\<close> returns,
  or what \<^verbatim>\<open>keysFromPrimes(p, q, g)\<close> returns for the generator of the key, where the
  generator is a unit modulo \<open>n\<close> and \<open>mu\<close> exists (\<^verbatim>\<open>modInv\<close> did not return \<^verbatim>\<open>NaN\<close>).
  \<^verbatim>\<open>generateRandomKeys\<close> and \<^verbatim>\<open>generateRandomKeysSync\<close> build the key from their two
  primes by the same statements, and a key built on a drawn generator is the key built
  when that generator is passed explicitly (\<open>keysFromPrimes_drawn\<close> below).
\<close>

definition valid_keypair :: "int \<Rightarrow> int \<Rightarrow> KeyPair \<Rightarrow> bool" where
  "valid_keypair p q kp \<longleftrightarrow>
     is_prime p \<and> is_prime q \<and> p \<noteq> q \<and>
     gcd (pk_g (publicKey kp)) (p * q) = 1 \<and>
     sk_mu (privateKey kp) \<noteq> NaN \<and>
     (kp = keysFromPrimesSimple p q \<or>
      keysFromPrimes p q (Some (pk_g (publicKey kp))) 0 0 = Inr kp)"

text \<open>The facts about a valid key pair that the proofs use.\<close>

definition key_ctx :: "int \<Rightarrow> int \<Rightarrow> KeyPair \<Rightarrow> int \<Rightarrow> int \<Rightarrow> int \<Rightarrow> int \<Rightarrow> bool" where
  "key_ctx p q kp g lam mu K \<longleftrightarrow>
     is_prime p \<and> is_prime q \<and> p \<noteq> q \<and>
     publicKey kp = new_PublicKey (p * q) g \<and>
     privateKey kp = new_PrivateKey lam (Big mu) (new_PublicKey (p * q) g) (Some p) (Some q) \<and>
     coprime g (p * q) \<and> 0 \<le> lam \<and> p - 1 dvd lam \<and> q - 1 dvd lam \<and>
     0 \<le> mu \<and> mu < p * q \<and> (K * mu) mod (p * q) = 1 \<and> carries (p * q) lam K g 1"

lemma keysFromPrimes_drawn:
  assumes "keysFromPrimes p q gopt d1 d2 = Inr kp" "pk_g (publicKey kp) \<noteq> 0"
  shows "keysFromPrimes p q (Some (pk_g (publicKey kp))) d1' d2' = Inr kp"
proof -
  define gen where "gen go e1 e2 =
    (case or_null go of Some g' \<Rightarrow> Inr g' | None \<Rightarrow> getGenerator (p * q) ((p * q) ^ 2) e1 e2)"
    for go e1 e2
  define build where "build g' =
    (case modPow g' (bcu_lcm (p - 1) (q - 1)) ((p * q) ^ 2) of
       Inl e \<Rightarrow> Inl e
     | Inr u \<Rightarrow>
         (case L u (p * q) of
            Inl e \<Rightarrow> Inl e
          | Inr l \<Rightarrow>
              Inr \<lparr>publicKey = new_PublicKey (p * q) g',
                   privateKey = new_PrivateKey (bcu_lcm (p - 1) (q - 1)) (modInv l (p * q))
                     (new_PublicKey (p * q) g') (Some p) (Some q)\<rparr>))" for g'
  have unfold: "keysFromPrimes p q go e1 e2 =
                  (case gen go e1 e2 of Inl e \<Rightarrow> Inl e | Inr g' \<Rightarrow> build g')" for go e1 e2
    by (auto simp: keysFromPrimes_def gen_def build_def Let_def split: sum.splits)
  have g_of: "pk_g (publicKey k) = g'" if "build g' = Inr k" for g' k
    using that by (auto simp: build_def new_PublicKey_def split: sum.splits)
  have given: "gen (Some g') e1 e2 = Inr g'" if "g' \<noteq> 0" for g' e1 e2
    using that by (simp add: gen_def or_null_def)
  from assms(1) obtain g' where "gen gopt d1 d2 = Inr g'" "build g' = Inr kp"
    unfolding unfold by (auto split: sum.splits)
  with assms(2) g_of [of g' kp] given [of g' d1' d2'] show ?thesis
    unfolding unfold by simp
qed

lemma is_prime_gt_1: "is_prime p \<Longrightarrow> 1 < p"
  by (simp add: is_prime_def)

lemma modulus_gt_1: "is_prime p \<Longrightarrow> is_prime q \<Longrightarrow> 1 < p * q"
  by (simp add: is_prime_def less_1_mult)

lemma simple_key_ctx:
  assumes "is_prime p" "is_prime q" "p \<noteq> q"
    and mu: "sk_mu (privateKey (keysFromPrimesSimple p q)) \<noteq> NaN"
  shows "\<exists>mu. key_ctx p q (keysFromPrimesSimple p q) (p * q + 1) ((p - 1) * (q - 1)) mu
                ((p - 1) * (q - 1))"
proof -
  define n where "n = p * q"
  define lam where "lam = (p - 1) * (q - 1)"
  have n: "1 < n"
    unfolding n_def using assms(1,2) by (rule modulus_gt_1)
  have lam: "0 \<le> lam"
    using assms(1,2) by (simp add: lam_def is_prime_def)
  from mu obtain m where m: "modInv lam n = Big m"
    by (cases "modInv lam n")
       (simp_all add: keysFromPrimesSimple_def Let_def new_PrivateKey_def n_def lam_def)
  from modInv_Big [OF m] n have inv: "0 \<le> m" "m < n" "(lam * m) mod n = 1"
    by simp_all
  have "(1 + 1 * n) ^ nat lam mod n ^ 2 = (1 + int (nat lam) * 1 * n) mod n ^ 2"
    by (rule one_plus_multiple_power)
  then have "carries n lam lam (n + 1) 1"
    using lam by (simp add: carries_def mod_eq_dvd_iff add.commute)
  moreover have "coprime (n + 1) n"
    by (simp add: coprime_iff_gcd_eq_1 gcd.commute)
  moreover have "p - 1 dvd lam" "q - 1 dvd lam"
    by (simp_all add: lam_def)
  ultimately have "key_ctx p q (keysFromPrimesSimple p q) (n + 1) lam m lam"
    using assms(1-3) lam inv m
    by (simp add: key_ctx_def keysFromPrimesSimple_def Let_def n_def [symmetric]
        lam_def [symmetric])
  then show ?thesis
    unfolding n_def lam_def ..
qed

lemma general_key_ctx:
  assumes "is_prime p" "is_prime q" "p \<noteq> q"
    and g: "coprime g (p * q)"
    and kp: "keysFromPrimes p q (Some g) d1 d2 = Inr kp"
    and mu: "sk_mu (privateKey kp) \<noteq> NaN"
  shows "\<exists>mu K. key_ctx p q kp g (lcm (p - 1) (q - 1)) mu K"
proof -
  define n where "n = p * q"
  define lam where "lam = lcm (p - 1) (q - 1)"
  define u where "u = g ^ nat lam mod n ^ 2"
  define K where "K = (u - 1) div n"
  have n: "1 < n"
    unfolding n_def using assms(1,2) by (rule modulus_gt_1)
  then have n2: "1 < n ^ 2"
    by (rule square_gt_1)
  then have n2pos: "0 < n ^ 2"
    by linarith
  have lam: "0 \<le> lam"
    by (simp add: lam_def)
  have g0: "g \<noteq> 0"
  proof
    assume "g = 0"
    moreover have "coprime g n"
      using g by (simp only: n_def)
    ultimately have "\<bar>n\<bar> = 1"
      by simp
    with n show False
      by simp
  qed
  have "g ^ nat lam mod n = 1"
    unfolding n_def using assms(1-3) g by (rule carmichael_pq) (simp_all add: lam_def)
  then have u1: "u mod n = 1"
    by (simp add: u_def mod_mod_cancel)
  have "0 \<le> u"
    using n2pos by (simp add: u_def)
  moreover have "u \<noteq> 0"
    using u1 by auto
  ultimately have upos: "0 \<le> u - 1"
    by simp
  have "n dvd u - 1"
    using u1 n by (simp add: mod_eq_dvd_iff [symmetric])
  then have uK: "u = 1 + K * n"
    by (simp add: K_def)
  have pow: "modPow g lam (n ^ 2) = Inr (Big u)"
    using n2 lam by (simp add: modPow_pos u_def)
  have L: "L (Big u) n = Inr K"
    using n upos by (simp add: L_def K_def sdiv_nonneg)
  from kp pow L g0 have kp_eq:
    "kp = \<lparr>publicKey = new_PublicKey n g,
           privateKey = new_PrivateKey lam (modInv K n) (new_PublicKey n g) (Some p) (Some q)\<rparr>"
    by (simp add: keysFromPrimes_def Let_def or_null_def bcu_lcm_eq n_def [symmetric]
        lam_def [symmetric])
  with mu obtain m where m: "modInv K n = Big m"
    by (cases "modInv K n") (simp_all add: new_PrivateKey_def)
  from modInv_Big [OF m] n have inv: "0 \<le> m" "m < n" "(K * m) mod n = 1"
    by simp_all
  have "n ^ 2 dvd g ^ nat lam - u"
    by (simp add: u_def mod_eq_dvd_iff [symmetric])
  then have "carries n lam K g 1"
    by (simp add: carries_def uK)
  then have "key_ctx p q kp g lam m K"
    using assms(1-3) g lam inv m kp_eq
    by (simp add: key_ctx_def n_def [symmetric] lam_def)
  then show ?thesis
    unfolding lam_def by blast
qed

lemma valid_keypair_ctx:
  assumes "valid_keypair p q kp"
  shows "\<exists>g lam mu K. key_ctx p q kp g lam mu K"
proof -
  from assms have pq: "is_prime p" "is_prime q" "p \<noteq> q"
    and g: "coprime (pk_g (publicKey kp)) (p * q)"
    and mu: "sk_mu (privateKey kp) \<noteq> NaN"
    and kp: "kp = keysFromPrimesSimple p q \<or>
             keysFromPrimes p q (Some (pk_g (publicKey kp))) 0 0 = Inr kp"
    by (simp_all add: valid_keypair_def coprime_iff_gcd_eq_1)
  from kp show ?thesis
  proof
    assume "kp = keysFromPrimesSimple p q"
    with simple_key_ctx [OF pq] mu show ?thesis
      by blast
  next
    assume "keysFromPrimes p q (Some (pk_g (publicKey kp))) 0 0 = Inr kp"
    from general_key_ctx [OF pq g this mu] show ?thesis
      by blast
  qed
qed

lemma key_ctx_decrypt:
  assumes "key_ctx p q kp g lam mu K" "carries (p * q) lam K c x"
  shows "decrypt (privateKey kp) c = Inr (x mod (p * q))"
proof (rule decrypt_carries [OF _ _ _ _ _ _ _ assms(2)])
  show "1 < p * q"
    using assms(1) by (simp add: key_ctx_def modulus_gt_1)
  show "sk_publicKey (privateKey kp) = new_PublicKey (p * q) g"
    using assms(1) by (simp add: key_ctx_def new_PrivateKey_def)
qed (use assms(1) in \<open>simp_all add: key_ctx_def new_PrivateKey_def\<close>)

lemma key_ctx_unit:
  assumes "key_ctx p q kp g lam mu K" "coprime a (p * q)"
  shows "a ^ nat lam mod (p * q) = 1"
  using assms by (intro carmichael_pq) (simp_all add: key_ctx_def)

lemma key_ctx_encrypt:
  assumes ctx: "key_ctx p q kp g lam mu K" and m: "0 \<le> m" and r: "coprime r (p * q)"
  shows "encrypt_with (publicKey kp) m r = Inr ((g ^ nat m * r ^ nat (p * q)) mod (p * q) ^ 2) \<and>
         carries (p * q) lam K ((g ^ nat m * r ^ nat (p * q)) mod (p * q) ^ 2) m"
proof -
  define n where "n = p * q"
  have n: "1 < n"
    using ctx by (simp add: key_ctx_def n_def modulus_gt_1)
  have "r ^ nat lam mod n = 1"
    unfolding n_def using ctx r by (rule key_ctx_unit)
  then have "carries n lam K (r ^ nat n) 0"
    using n by (intro carries_lift) simp_all
  moreover have "carries n lam K (g ^ nat m) (int (nat m) * 1)"
    using ctx by (intro carries_power) (simp add: key_ctx_def n_def)
  ultimately have "carries n lam K (g ^ nat m * r ^ nat n) (int (nat m) * 1 + 0)"
    by (rule carries_mult [rotated])
  then have "carries n lam K ((g ^ nat m * r ^ nat n) mod n ^ 2) m"
    using m by (simp add: carries_mod)
  moreover have "encrypt_with (publicKey kp) m r = Inr ((g ^ nat m * r ^ nat n) mod n ^ 2)"
    using ctx n m by (simp add: key_ctx_def n_def [symmetric] encrypt_with_value)
  ultimately show ?thesis
    by (simp add: n_def)
qed

section \<open>Claims about the scheme\<close>

lemma draw_r_no_error:
  "1 < n \<Longrightarrow> draw_r n draws \<noteq> Some (Inl e)"
  by (induction draws) (auto simp: randBetween_def)

lemma addition_reduce_prod:
  "0 < n2 \<Longrightarrow> 0 \<le> acc \<Longrightarrow> acc < n2 \<Longrightarrow> \<forall>c \<in> set cs. 0 \<le> c \<Longrightarrow>
     addition_reduce n2 acc cs = Inr ((acc * prod_list cs) mod n2)"
proof (induction cs arbitrary: acc)
  case Nil
  then show ?case by simp
next
  case (Cons c cs)
  define acc' where "acc' = (acc * c) mod n2"
  have "(acc * c) smod n2 = acc'"
    using Cons.prems by (simp add: acc'_def smod_nonneg)
  moreover have "addition_reduce n2 acc' cs = Inr ((acc' * prod_list cs) mod n2)"
    using Cons.prems by (intro Cons.IH) (simp_all add: acc'_def)
  moreover have "(acc' * prod_list cs) mod n2 = (acc * (c * prod_list cs)) mod n2"
    by (simp add: acc'_def mod_mult_left_eq mult.assoc)
  ultimately show ?case
    using Cons.prems by simp
qed

text \<open>
  C1. For a valid key pair and a message \<open>m\<close> of \<open>[0, n)\<close>: decrypting the encryption of
  \<open>m\<close> under any \<open>r\<close> coprime to \<open>n\<close> returns \<open>m\<close>; when \<open>r\<close> is left to the loop of
  \<^verbatim>\<open>encrypt\<close>, whatever the loop returns is a ciphertext that decrypts to \<open>m\<close>, and the
  loop returns as soon as a drawn value is coprime to \<open>n\<close>.
\<close>

theorem decrypt_encrypt:
  assumes "valid_keypair p q kp" "0 \<le> m" "m < p * q"
  shows "(gcd r (p * q) = 1 \<longrightarrow>
            (\<exists>c. encrypt (publicKey kp) m (Some r) draws = Some (Inr c) \<and>
                 decrypt (privateKey kp) c = Inr m)) \<and>
         (\<forall>res. encrypt (publicKey kp) m None draws = Some res \<longrightarrow>
            (\<exists>c. res = Inr c \<and> decrypt (privateKey kp) c = Inr m)) \<and>
         ((\<exists>d \<in> set draws. gcd d (p * q) = 1) \<longrightarrow>
            (\<exists>c. encrypt (publicKey kp) m None draws = Some (Inr c)))"
proof -
  from valid_keypair_ctx [OF assms(1)] obtain g lam mu K where ctx: "key_ctx p q kp g lam mu K"
    by blast
  then have n: "1 < p * q" and pk: "pk_n (publicKey kp) = p * q"
    by (simp_all add: key_ctx_def modulus_gt_1 new_PublicKey_def)
  have enc: "\<exists>c. encrypt_with (publicKey kp) m r' = Inr c \<and> decrypt (privateKey kp) c = Inr m"
    if "gcd r' (p * q) = 1" for r'
  proof -
    from that have "coprime r' (p * q)"
      by (simp add: coprime_iff_gcd_eq_1)
    from key_ctx_encrypt [OF ctx assms(2) this] obtain c where
      c: "encrypt_with (publicKey kp) m r' = Inr c" "carries (p * q) lam K c m"
      by blast
    from key_ctx_decrypt [OF ctx c(2)] assms(2,3) have "decrypt (privateKey kp) c = Inr m"
      by simp
    with c(1) show ?thesis
      by blast
  qed
  have loop: "\<exists>c. res = Inr c \<and> decrypt (privateKey kp) c = Inr m"
    if "encrypt (publicKey kp) m None draws = Some res" for res
  proof -
    from that draw_r_no_error [OF n] obtain r' where
      r': "draw_r (p * q) draws = Some (Inr r')" "res = encrypt_with (publicKey kp) m r'"
      by (auto simp: encrypt_def pk split: option.splits sum.splits)
    from draw_r_coprime [OF r'(1)] have "gcd r' (p * q) = 1"
      by (simp add: bcu_gcd_eq)
    from enc [OF this] r'(2) show ?thesis
      by simp
  qed
  have returns: "\<exists>c. encrypt (publicKey kp) m None draws = Some (Inr c)"
    if "\<exists>d \<in> set draws. gcd d (p * q) = 1"
  proof -
    from that have "\<exists>d \<in> set draws. bcu_gcd d (p * q) = 1"
      by (simp add: bcu_gcd_eq)
    from draw_r_returns [OF n this] obtain r' where r': "draw_r (p * q) draws = Some (Inr r')"
      by blast
    from draw_r_coprime [OF r'] have "gcd r' (p * q) = 1"
      by (simp add: bcu_gcd_eq)
    from enc [OF this] r' show ?thesis
      by (auto simp: encrypt_def pk)
  qed
  from enc loop returns show ?thesis
    by (simp add: encrypt_def)
qed

theorem decrypt_encrypt_witness:
  "encrypt (new_PublicKey 143 8439) 7 None [11, 2] = Some (Inr 18316) \<and>
   decrypt (new_PrivateKey 60 (Big 92) (new_PublicKey 143 8439) (Some 11) (Some 13)) 18316 = Inr 7"
proof -
  define kp where "kp = \<lparr>publicKey = new_PublicKey 143 8439,
    privateKey = new_PrivateKey 60 (Big 92) (new_PublicKey 143 8439) (Some 11) (Some 13)\<rparr>"
  have "keysFromPrimes 11 13 (Some 8439) 0 0 = Inr kp"
    unfolding kp_def by code_simp
  moreover have "is_prime 11" "is_prime 13" "gcd (8439 :: int) (11 * 13) = 1"
    by code_simp+
  ultimately have valid: "valid_keypair 11 13 kp"
    by (simp add: valid_keypair_def kp_def new_PrivateKey_def new_PublicKey_def)
  have e: "encrypt (publicKey kp) 7 None [11, 2] = Some (Inr 18316)"
    unfolding kp_def by code_simp
  from decrypt_encrypt [OF valid, of 7 0 "[11, 2]"] e
  have "decrypt (privateKey kp) 18316 = Inr 7"
    by simp
  with e show ?thesis
    by (simp add: kp_def)
qed

text \<open>
  C2. For a valid key pair and any list of messages \<open>m\<^sub>i\<close> of \<open>[0, n)\<close> encrypted under
  factors \<open>r\<^sub>i\<close> coprime to \<open>n\<close>, \<^verbatim>\<open>addition\<close> of the ciphertexts returns their product
  modulo \<open>n\<^sup>2\<close>, which decrypts to the sum of the messages modulo \<open>n\<close>.
\<close>

theorem addition_homomorphic:
  assumes "valid_keypair p q kp"
    and "\<forall>(m, r) \<in> set mrs. 0 \<le> m \<and> m < p * q \<and> gcd r (p * q) = 1"
  shows "\<exists>cs. map (\<lambda>(m, r). encrypt_with (publicKey kp) m r) mrs = map Inr cs \<and>
              addition (publicKey kp) cs = Inr (prod_list cs mod (p * q) ^ 2) \<and>
              decrypt (privateKey kp) (prod_list cs mod (p * q) ^ 2) =
                Inr (sum_list (map fst mrs) mod (p * q))"
proof -
  from valid_keypair_ctx [OF assms(1)] obtain g lam mu K where ctx: "key_ctx p q kp g lam mu K"
    by blast
  then have n: "1 < p * q" and pk: "pk_n2 (publicKey kp) = (p * q) ^ 2"
    by (simp_all add: key_ctx_def modulus_gt_1 new_PublicKey_def)
  have n2: "0 < (p * q) ^ 2"
    using square_gt_1 [OF n] by linarith
  define enc where "enc = (\<lambda>(m, r). (g ^ nat m * r ^ nat (p * q)) mod (p * q) ^ 2)"
  define cs where "cs = map enc mrs"
  have each: "encrypt_with (publicKey kp) m r = Inr (enc (m, r)) \<and>
              carries (p * q) lam K (enc (m, r)) m"
    if "(m, r) \<in> set mrs" for m r
  proof -
    from that assms(2) have "0 \<le> m" "coprime r (p * q)"
      by (auto simp: coprime_iff_gcd_eq_1)
    from key_ctx_encrypt [OF ctx this] show ?thesis
      by (simp add: enc_def)
  qed
  then have enc_cs: "map (\<lambda>(m, r). encrypt_with (publicKey kp) m r) mrs = map Inr cs"
    by (auto simp: cs_def)
  have nonneg: "\<forall>c \<in> set cs. 0 \<le> c"
    using n2 by (auto simp: cs_def enc_def)
  have "carries (p * q) lam K (prod_list (map enc xs)) (sum_list (map fst xs))"
    if "set xs \<subseteq> set mrs" for xs
    using that
  proof (induction xs)
    case Nil
    show ?case by (simp add: carries_one)
  next
    case (Cons x xs)
    obtain m r where x: "x = (m, r)"
      by (cases x)
    with Cons.prems have "carries (p * q) lam K (enc (m, r)) m"
      using each by simp
    moreover have "carries (p * q) lam K (prod_list (map enc xs)) (sum_list (map fst xs))"
      using Cons by simp
    ultimately show ?case
      unfolding x by (simp add: carries_mult)
  qed
  then have "carries (p * q) lam K (prod_list cs mod (p * q) ^ 2) (sum_list (map fst mrs))"
    by (simp add: cs_def carries_mod)
  from key_ctx_decrypt [OF ctx this]
  have dec: "decrypt (privateKey kp) (prod_list cs mod (p * q) ^ 2) =
             Inr (sum_list (map fst mrs) mod (p * q))" .
  have "addition (publicKey kp) cs = Inr ((1 * prod_list cs) mod (p * q) ^ 2)"
    unfolding addition_def pk using n2 square_gt_1 [OF n] nonneg
    by (intro addition_reduce_prod) simp_all
  with enc_cs dec show ?thesis
    by auto
qed

theorem addition_homomorphic_witness:
  "map (\<lambda>(m, r). encrypt_with (publicKey (keysFromPrimesSimple 17 19)) m r) [(5, 2), (9, 3)] =
     map Inr [99152, 90263] \<and>
   addition (publicKey (keysFromPrimesSimple 17 19)) [99152, 90263] = Inr 102369 \<and>
   decrypt (privateKey (keysFromPrimesSimple 17 19)) 102369 = Inr 14"
proof -
  have valid: "valid_keypair 17 19 (keysFromPrimesSimple 17 19)"
    unfolding valid_keypair_def by code_simp
  have hyp: "\<forall>(m, r) \<in> set [(5 :: int, 2 :: int), (9, 3)].
               0 \<le> m \<and> m < 17 * 19 \<and> gcd r (17 * 19) = 1"
    by code_simp
  have enc: "map (\<lambda>(m, r). encrypt_with (publicKey (keysFromPrimesSimple 17 19)) m r)
               [(5, 2), (9, 3)] = map Inr [99152, 90263]"
    by code_simp
  from addition_homomorphic [OF valid hyp] enc
  have "addition (publicKey (keysFromPrimesSimple 17 19)) [99152, 90263] =
          Inr (prod_list [99152, 90263] mod (17 * 19) ^ 2) \<and>
        decrypt (privateKey (keysFromPrimesSimple 17 19)) (prod_list [99152, 90263] mod (17 * 19) ^ 2) =
          Inr (sum_list (map fst [(5, 2), (9 :: int, 3 :: int)]) mod (17 * 19))"
    by (auto dest: map_injective simp: inj_on_def)
  with enc show ?thesis
    by simp
qed

lemma coprime_mod_same: "coprime a b \<Longrightarrow> coprime (a mod b) b" for a b :: int
  by (metis coprime_iff_gcd_eq_1 gcd.commute gcd_red_int)

text \<open>
  C3. For a valid key pair, a message \<open>m\<close> of \<open>[0, n)\<close> and a ciphertext \<open>c\<close> of it,
  \<^verbatim>\<open>multiply(c, k)\<close> returns \<open>c ^ k mod n\<^sup>2\<close> for every integer \<open>k\<close> (for a negative \<open>k\<close>:
  the inverse of \<open>c ^ |k|\<close> modulo \<open>n\<^sup>2\<close>), and the result decrypts to \<open>k * m mod n\<close>.
\<close>

theorem multiply_homomorphic:
  assumes "valid_keypair p q kp" "0 \<le> m" "m < p * q" "gcd r (p * q) = 1"
  shows "\<exists>c c'. encrypt_with (publicKey kp) m r = Inr c \<and>
           multiply (publicKey kp) c k = Inr (Big c') \<and>
           (0 \<le> k \<longrightarrow> c' = c ^ nat k mod (p * q) ^ 2) \<and>
           (k < 0 \<longrightarrow> 0 \<le> c' \<and> c' < (p * q) ^ 2 \<and> (c' * c ^ nat (- k)) mod (p * q) ^ 2 = 1) \<and>
           decrypt (privateKey kp) c' = Inr ((k * m) mod (p * q))"
proof -
  from valid_keypair_ctx [OF assms(1)] obtain g lam mu K where ctx: "key_ctx p q kp g lam mu K"
    by blast
  define n where "n = p * q"
  from ctx have n: "1 < n" and pk: "pk_n2 (publicKey kp) = n ^ 2" and g: "coprime g n"
    by (simp_all add: key_ctx_def modulus_gt_1 new_PublicKey_def n_def)
  have n2: "1 < n ^ 2"
    using n by (rule square_gt_1)
  have r: "coprime r n"
    using assms(4) by (simp add: coprime_iff_gcd_eq_1 n_def)
  define c where "c = (g ^ nat m * r ^ nat n) mod n ^ 2"
  from key_ctx_encrypt [OF ctx assms(2)] r
  have enc: "encrypt_with (publicKey kp) m r = Inr c" and car: "carries n lam K c m"
    by (simp_all add: c_def n_def)
  have "coprime (g ^ nat m * r ^ nat n) (n ^ 2)"
    using g r by simp
  then have unit: "coprime c (n ^ 2)"
    unfolding c_def by (rule coprime_mod_same)
  show ?thesis
  proof (cases "0 \<le> k")
    case True
    define c' where "c' = c ^ nat k mod n ^ 2"
    have "multiply (publicKey kp) c k = Inr (Big c')"
      using n2 True by (simp add: multiply_def pk modPow_pos c'_def)
    moreover have "carries n lam K c' (int (nat k) * m)"
      unfolding c'_def carries_mod using car by (rule carries_power)
    then have "decrypt (privateKey kp) c' = Inr ((k * m) mod n)"
      using key_ctx_decrypt [OF ctx, of c' "int (nat k) * m"] True by (simp add: n_def)
    ultimately show ?thesis
      using enc True by (auto simp: c'_def n_def)
  next
    case False
    define a where "a = c ^ nat (- k) mod n ^ 2"
    have "coprime (c ^ nat (- k)) (n ^ 2)"
      using unit by simp
    then have "coprime a (n ^ 2)"
      unfolding a_def by (rule coprime_mod_same)
    from modInv_coprime [OF n2 this] obtain c' where c': "modInv a (n ^ 2) = Big c'"
      by blast
    from modInv_Big [OF c'] n2 have inv: "0 \<le> c'" "c' < n ^ 2" "(a * c') mod n ^ 2 = 1"
      by simp_all
    have "0 < n ^ 2" "k < 0"
      using n2 False by linarith+
    then have "modPow c k (n ^ 2) = Inr (modInv a (n ^ 2))"
      unfolding a_def by (rule modPow_neg)
    then have mul: "multiply (publicKey kp) c k = Inr (Big c')"
      by (simp add: multiply_def pk c')
    have "(c' * c ^ nat (- k)) mod n ^ 2 = (a * c') mod n ^ 2"
      unfolding a_def by (metis mod_mult_left_eq mult.commute)
    with inv have inv': "(c' * c ^ nat (- k)) mod n ^ 2 = 1"
      by simp
    have "carries n lam K a (int (nat (- k)) * m)"
      unfolding a_def carries_mod using car by (rule carries_power)
    moreover have "(a * c') mod n ^ 2 = 1 mod n ^ 2"
      using inv n2 by simp
    ultimately have "carries n lam K c' (- (int (nat (- k)) * m))"
      by (rule carries_inverse)
    then have "decrypt (privateKey kp) c' = Inr ((k * m) mod n)"
      using key_ctx_decrypt [OF ctx, of c' "- (int (nat (- k)) * m)"] False by (simp add: n_def)
    with enc mul inv inv' False show ?thesis
      by (auto simp: n_def)
  qed
qed

theorem multiply_homomorphic_witness:
  "encrypt_with (publicKey (keysFromPrimesSimple 17 19)) 5 2 = Inr 99152 \<and>
   multiply (publicKey (keysFromPrimesSimple 17 19)) 99152 4 = Inr (Big 53073) \<and>
   decrypt (privateKey (keysFromPrimesSimple 17 19)) 53073 = Inr 20 \<and>
   multiply (publicKey (keysFromPrimesSimple 17 19)) 99152 (- 3) = Inr (Big 27957) \<and>
   decrypt (privateKey (keysFromPrimesSimple 17 19)) 27957 = Inr 308"
proof -
  have valid: "valid_keypair 17 19 (keysFromPrimesSimple 17 19)"
    unfolding valid_keypair_def by code_simp
  have enc: "encrypt_with (publicKey (keysFromPrimesSimple 17 19)) 5 2 = Inr 99152"
    by code_simp
  have m4: "multiply (publicKey (keysFromPrimesSimple 17 19)) 99152 4 = Inr (Big 53073)"
    by code_simp
  have m3: "multiply (publicKey (keysFromPrimesSimple 17 19)) 99152 (- 3) = Inr (Big 27957)"
    by code_simp
  have "gcd (2 :: int) (17 * 19) = 1"
    by code_simp
  note hom = multiply_homomorphic [OF valid _ _ this, of 5]
  from hom [of 4] enc m4 have "decrypt (privateKey (keysFromPrimesSimple 17 19)) 53073 = Inr 20"
    by auto
  moreover from hom [of "- 3"] enc m3
  have "decrypt (privateKey (keysFromPrimesSimple 17 19)) 27957 = Inr 308"
    by auto
  ultimately show ?thesis
    using enc m4 m3 by simp
qed

lemma smod_mod_dvd: "n dvd b \<Longrightarrow> (a smod b) mod n = a mod n" for a b n :: int
  by (metis mod_mod_cancel smod_mod_same)

lemma mod_inverse_coprime:
  fixes a x n :: int
  assumes "(a * x) mod n = 1"
  shows "coprime a n"
proof (rule coprimeI)
  fix c assume "c dvd a" "c dvd n"
  then have "c dvd (a * x) mod n"
    by (intro dvd_mod) simp_all
  with assms show "is_unit c"
    by simp
qed

lemma valid_simple_phi:
  assumes ctx: "key_ctx p q kp (p * q + 1) lam mu K"
  shows "coprime (p * q) ((p - 1) * (q - 1)) \<and> 1 < (p - 1) * (q - 1)"
proof -
  define n where "n = p * q"
  from ctx have pq: "is_prime p" "is_prime q" "p \<noteq> q" and lam: "0 \<le> lam"
    and dv: "p - 1 dvd lam" "q - 1 dvd lam"
    and inv: "(K * mu) mod n = 1" and car: "carries n lam K (n + 1) 1"
    by (simp_all add: key_ctx_def n_def)
  have n: "1 < n"
    unfolding n_def using pq(1,2) by (rule modulus_gt_1)
  have "(1 + 1 * n) ^ nat lam mod n ^ 2 = (1 + int (nat lam) * 1 * n) mod n ^ 2"
    by (rule one_plus_multiple_power)
  then have "n ^ 2 dvd (n + 1) ^ nat lam - (1 + lam * n)"
    using lam by (simp add: mod_eq_dvd_iff add.commute)
  moreover from car have "n ^ 2 dvd (n + 1) ^ nat lam - (1 + K * n)"
    by (simp add: carries_def)
  ultimately have "n ^ 2 dvd ((n + 1) ^ nat lam - (1 + K * n)) - ((n + 1) ^ nat lam - (1 + lam * n))"
    by (rule dvd_diff [rotated])
  then have "n * n dvd n * (lam - K)"
    by (simp add: power2_eq_square algebra_simps)
  then have "n dvd lam - K"
    using n by simp
  then have "lam mod n = K mod n"
    by (simp add: mod_eq_dvd_iff)
  then have "(lam * mu) mod n = (K * mu) mod n"
    by (rule mod_mult_cong) simp
  with inv have "(lam * mu) mod n = 1"
    by simp
  then have "coprime lam n"
    by (rule mod_inverse_coprime)
  then have "coprime (p - 1) n" "coprime (q - 1) n"
    using dv by (auto intro: coprime_divisors [of _ lam n n])
  then have cop: "coprime n ((p - 1) * (q - 1))"
    by (simp add: coprime_commute)
  from pq have "2 \<le> p" "2 \<le> q"
    by (simp_all add: is_prime_def)
  with pq(3) have "3 \<le> p \<or> 3 \<le> q"
    by linarith
  then have "1 < (p - 1) * (q - 1)"
  proof
    assume "3 \<le> p"
    with \<open>2 \<le> q\<close> have "2 * 1 \<le> (p - 1) * (q - 1)"
      by (intro mult_mono) simp_all
    then show ?thesis by simp
  next
    assume "3 \<le> q"
    with \<open>2 \<le> p\<close> have "1 * 2 \<le> (p - 1) * (q - 1)"
      by (intro mult_mono) simp_all
    then show ?thesis by simp
  qed
  with cop show ?thesis
    by (simp add: n_def)
qed


text \<open>
  C4. For a valid key pair with \<open>g = n + 1\<close> whose private key holds \<open>p\<close> and \<open>q\<close>, every
  message \<open>m\<close> of \<open>[0, n)\<close> and every \<open>r\<close> coprime to \<open>n\<close>:
  \<^verbatim>\<open>getRandomFactor(encrypt(m, r))\<close> is \<open>r mod n\<close>. With \<open>p = 11\<close> and \<open>q = 13\<close> the
  simple key has \<open>n = 143\<close>, \<open>g = 144\<close>, \<open>lambda = 120\<close> and \<open>mu = 87\<close>, the inverse of
  \<open>120\<close> modulo \<open>143\<close>; the encryption of \<open>7\<close> under \<open>r = 2\<close> decrypts to \<open>7\<close> and its
  random factor is \<open>2\<close>.
\<close>

theorem getRandomFactor_recovers:
  assumes "valid_keypair p q kp" "pk_g (publicKey kp) = p * q + 1"
    and "0 \<le> m" "m < p * q" "gcd r (p * q) = 1"
  shows "(\<exists>c. encrypt_with (publicKey kp) m r = Inr c \<and>
              getRandomFactor (privateKey kp) c = Inr (Big (r mod (p * q)))) \<and>
         keysFromPrimesSimple 11 13 =
           \<lparr>publicKey = \<lparr>pk_n = 143, pk_n2 = 20449, pk_g = 144\<rparr>,
            privateKey = \<lparr>sk_lambda = 120, sk_mu = Big 87, sk_p = Some 11, sk_q = Some 13,
                          sk_publicKey = \<lparr>pk_n = 143, pk_n2 = 20449, pk_g = 144\<rparr>\<rparr>\<rparr> \<and>
         encrypt_with (publicKey (keysFromPrimesSimple 11 13)) 7 2 = Inr 16959 \<and>
         decrypt (privateKey (keysFromPrimesSimple 11 13)) 16959 = Inr 7 \<and>
         getRandomFactor (privateKey (keysFromPrimesSimple 11 13)) 16959 = Inr (Big 2)"
proof -
  from valid_keypair_ctx [OF assms(1)] obtain g lam mu K where ctx0: "key_ctx p q kp g lam mu K"
    by blast
  with assms(2) have "g = p * q + 1"
    by (simp add: key_ctx_def new_PublicKey_def)
  with ctx0 have ctx: "key_ctx p q kp (p * q + 1) lam mu K"
    by simp
  define n where "n = p * q"
  define phi where "phi = (p - 1) * (q - 1)"
  from ctx have pq: "is_prime p" "is_prime q" "p \<noteq> q"
    and sk: "privateKey kp = new_PrivateKey lam (Big mu) (new_PublicKey n (n + 1)) (Some p) (Some q)"
    by (simp_all add: key_ctx_def n_def)
  have n: "1 < n"
    unfolding n_def using pq(1,2) by (rule modulus_gt_1)
  have p0: "p \<noteq> 0" "q \<noteq> 0"
    using pq by (auto simp: is_prime_def)
  have r: "coprime r n"
    using assms(5) by (simp add: coprime_iff_gcd_eq_1 n_def)
  define c where "c = ((n + 1) ^ nat m * r ^ nat n) mod n ^ 2"
  from key_ctx_encrypt [OF ctx assms(3)] r
  have enc: "encrypt_with (publicKey kp) m r = Inr c" and car: "carries n lam K c m"
    by (simp_all add: c_def n_def)
  from key_ctx_decrypt [OF ctx, of c m] car assms(3,4)
  have dec: "decrypt (privateKey kp) c = Inr m"
    by (simp add: n_def)
  from valid_simple_phi [OF ctx] have phi: "coprime n phi" "1 < phi"
    by (simp_all add: n_def phi_def)
  from modInv_coprime [OF phi(2,1)] obtain e where e: "modInv n phi = Big e"
    by blast
  from modInv_Big [OF e] phi(2) have inv: "0 \<le> e" "(n * e) mod phi = 1"
    by simp_all
  define c1 where "c1 = (c * (1 - m * n)) smod n ^ 2"
  have c1_mod: "c1 mod n = r ^ nat n mod n"
  proof -
    have "c1 mod n = (c * (1 - m * n)) mod n"
      unfolding c1_def by (rule smod_mod_dvd) simp
    also have "\<dots> = (c mod n * ((1 - m * n) mod n)) mod n"
      by (simp add: mod_mult_eq)
    also have "(1 - m * n) mod n = 1 mod n"
      by (simp add: mod_eq_dvd_iff)
    also have "c mod n = ((n + 1) ^ nat m * r ^ nat n) mod n"
      unfolding c_def by (simp add: mod_mod_cancel)
    also have "\<dots> = ((n + 1) ^ nat m mod n * (r ^ nat n mod n)) mod n"
      by (simp add: mod_mult_eq)
    also have "(n + 1) ^ nat m mod n = 1 mod n"
      by (rule power_one_mod) simp
    finally show ?thesis
      by (simp add: mod_mult_eq)
  qed
  have "0 \<le> n * e"
    using n inv by simp
  define t where "t = (n * e) div phi"
  have t0: "0 \<le> t"
    using \<open>0 \<le> n * e\<close> phi(2) by (simp add: t_def pos_imp_zdiv_nonneg_iff)
  have ne: "n * e = phi * t + 1"
    using inv(2) by (metis t_def mult_div_mod_eq)
  have "nat n * nat e = nat (n * e)"
    using n inv by (simp add: nat_mult_distrib)
  also have "\<dots> = nat phi * nat t + 1"
    using phi(2) t0 by (simp add: ne nat_add_distrib nat_mult_distrib)
  finally have exp: "nat n * nat e = nat phi * nat t + 1" .
  have unit: "r ^ nat phi mod n = 1"
    unfolding n_def phi_def using pq r by (intro carmichael_pq) (simp_all add: n_def is_prime_def)
  have "c1 ^ nat e mod n = (c1 mod n) ^ nat e mod n"
    by (simp add: power_mod)
  also have "\<dots> = (r ^ nat n) ^ nat e mod n"
    unfolding c1_mod by (simp add: power_mod)
  also have "(r ^ nat n) ^ nat e = (r ^ nat phi) ^ nat t * r"
    by (simp add: power_mult [symmetric] exp power_add)
  also have "((r ^ nat phi) ^ nat t * r) mod n = ((r ^ nat phi) ^ nat t mod n * r) mod n"
    by (simp add: mod_mult_left_eq)
  also have "(r ^ nat phi) ^ nat t mod n = 1 mod n"
    by (rule power_one_mod) (use unit n in simp)
  finally have res: "c1 ^ nat e mod n = r mod n"
    by (simp add: mod_mult_left_eq)
  have "modPow c1 e n = Inr (Big (c1 ^ nat e mod n))"
    using n inv(1) by (rule modPow_pos)
  with res have "getRandomFactor (privateKey kp) c = Inr (Big (r mod n))"
    using dec n p0 e
    by (simp add: getRandomFactor_def sk [symmetric])
       (simp add: sk new_PrivateKey_def new_PublicKey_def sk_n_def or_null_def
          phi_def [symmetric] c1_def [symmetric] Let_def)
  with enc have general: "\<exists>c. encrypt_with (publicKey kp) m r = Inr c \<and>
                              getRandomFactor (privateKey kp) c = Inr (Big (r mod (p * q)))"
    by (auto simp: n_def)
  have "keysFromPrimesSimple 11 13 =
           \<lparr>publicKey = \<lparr>pk_n = 143, pk_n2 = 20449, pk_g = 144\<rparr>,
            privateKey = \<lparr>sk_lambda = 120, sk_mu = Big 87, sk_p = Some 11, sk_q = Some 13,
                          sk_publicKey = \<lparr>pk_n = 143, pk_n2 = 20449, pk_g = 144\<rparr>\<rparr>\<rparr>"
    by code_simp
  moreover have "encrypt_with (publicKey (keysFromPrimesSimple 11 13)) 7 2 = Inr 16959"
    by code_simp
  moreover have "decrypt (privateKey (keysFromPrimesSimple 11 13)) 16959 = Inr 7"
    by code_simp
  moreover have "getRandomFactor (privateKey (keysFromPrimesSimple 11 13)) 16959 = Inr (Big 2)"
    by code_simp
  ultimately show ?thesis
    using general by blast
qed

theorem getRandomFactor_recovers_witness:
  "encrypt_with (publicKey (keysFromPrimesSimple 17 19)) 9 3 = Inr 90263 \<and>
   getRandomFactor (privateKey (keysFromPrimesSimple 17 19)) 90263 = Inr (Big 3)"
proof -
  have valid: "valid_keypair 17 19 (keysFromPrimesSimple 17 19)"
    unfolding valid_keypair_def by code_simp
  have g: "pk_g (publicKey (keysFromPrimesSimple 17 19)) = 17 * 19 + 1"
    by code_simp
  have enc: "encrypt_with (publicKey (keysFromPrimesSimple 17 19)) 9 3 = Inr 90263"
    by code_simp
  have "gcd (3 :: int) (17 * 19) = 1"
    by code_simp
  from getRandomFactor_recovers [OF valid g _ _ this, of 9] enc show ?thesis
    by auto
qed

text \<open>The inverse of \<open>120\<close> modulo \<open>143\<close> that the key holds is \<open>87\<close>, not \<open>24\<close>.\<close>

theorem keysFromPrimesSimple_11_13_mu:
  "sk_mu (privateKey (keysFromPrimesSimple 11 13)) = Big 87 \<and>
   sk_mu (privateKey (keysFromPrimesSimple 11 13)) \<noteq> Big 24 \<and>
   (120 * 24 :: int) mod 143 = 20"
  by code_simp

section \<open>Claims about errors and the prefilter\<close>

lemma modPow_no_error:
  assumes "0 < n"
  shows "\<exists>v. modPow a b n = Inr v"
proof (cases "0 \<le> b")
  case True
  with assms show ?thesis
    by (simp add: modPow_nonneg)
next
  case False
  with assms show ?thesis
    by (simp add: modPow_neg)
qed

text \<open>On a key built by the constructors, \<^verbatim>\<open>decrypt\<close> can only fail with a TypeError.\<close>

lemma decrypt_error:
  assumes "decrypt (new_PrivateKey lam mu (new_PublicKey n g) p q) c = Inl e"
  shows "e = TypeError_MixedTypes"
proof (cases "n = 0")
  case True
  then have "modPow c lam (n ^ 2) = Inr NaN"
    by (subst modPow.simps) simp
  with assms show ?thesis
    by (simp add: decrypt_def new_PrivateKey_def new_PublicKey_def L_def)
next
  case False
  then have "0 < n ^ 2"
    by simp
  from modPow_no_error [OF this] obtain v where v: "modPow c lam (n ^ 2) = Inr v"
    by blast
  show ?thesis
  proof (cases v)
    case NaN
    with assms v show ?thesis
      by (simp add: decrypt_def new_PrivateKey_def new_PublicKey_def L_def)
  next
    case (Big u)
    with assms v False show ?thesis
      by (cases mu) (simp_all add: decrypt_def new_PrivateKey_def new_PublicKey_def L_def)
  qed
qed

text \<open>
  C6. \<^verbatim>\<open>getRandomFactor\<close> raises its own RangeError (``Cannot recover the random
  factor \<dots>'') whenever \<open>g \<noteq> n + 1\<close>. When \<open>g = n + 1\<close> and \<open>p\<close> or \<open>q\<close> is absent
  (\<^verbatim>\<open>null\<close>, or \<^verbatim>\<open>0n\<close>, which the constructor turns into \<^verbatim>\<open>null\<close>) there is no check:
  the call raises a TypeError, from \<^verbatim>\<open>decrypt\<close> or from \<^verbatim>\<open>null - 1n\<close>.
\<close>

theorem getRandomFactor_errors:
  "(g \<noteq> n + 1 \<longrightarrow>
      getRandomFactor (new_PrivateKey lam mu (new_PublicKey n g) p q) c =
        Inl RangeError_CannotRecover) \<and>
   (g = n + 1 \<and> (or_null p = None \<or> or_null q = None) \<longrightarrow>
      getRandomFactor (new_PrivateKey lam mu (new_PublicKey n g) p q) c =
        Inl TypeError_MixedTypes)"
proof -
  define sk where "sk = new_PrivateKey lam mu (new_PublicKey n g) p q"
  have fields: "pk_g (sk_publicKey sk) = g" "sk_n sk = n" "sk_p sk = or_null p" "sk_q sk = or_null q"
    by (simp_all add: sk_def new_PrivateKey_def new_PublicKey_def sk_n_def)
  have "getRandomFactor sk c = Inl RangeError_CannotRecover" if "g \<noteq> n + 1"
    using that by (simp add: getRandomFactor_def fields)
  moreover have "getRandomFactor sk c = Inl TypeError_MixedTypes"
    if "g = n + 1" "or_null p = None \<or> or_null q = None"
  proof (cases "decrypt sk c")
    case (Inl e)
    with decrypt_error [of lam mu n g p q c e] have "e = TypeError_MixedTypes"
      by (simp add: sk_def)
    with Inl that show ?thesis
      by (simp add: getRandomFactor_def fields)
  next
    case (Inr m)
    with that show ?thesis
      by (auto simp: getRandomFactor_def fields split: option.splits)
  qed
  ultimately show ?thesis
    by (simp add: sk_def)
qed

theorem getRandomFactor_errors_witness:
  "getRandomFactor (new_PrivateKey 60 (Big 92) (new_PublicKey 143 8439) (Some 11) (Some 13)) 18316 =
     Inl RangeError_CannotRecover \<and>
   getRandomFactor (new_PrivateKey 120 (Big 87) (new_PublicKey 143 144) (Some 11) None) 16959 =
     Inl TypeError_MixedTypes"
proof -
  have a: "(8439 :: int) \<noteq> 143 + 1"
    by simp
  have b: "(144 :: int) = 143 + 1 \<and> (or_null (Some 11) = None \<or> or_null None = None)"
    by (simp add: or_null_def)
  from getRandomFactor_errors [of 8439 143 60 "Big 92" "Some 11" "Some 13" 18316] a
  have "getRandomFactor (new_PrivateKey 60 (Big 92) (new_PublicKey 143 8439) (Some 11) (Some 13))
          18316 = Inl RangeError_CannotRecover"
    by blast
  moreover from getRandomFactor_errors [of 144 143 120 "Big 87" "Some 11" None 16959] b
  have "getRandomFactor (new_PrivateKey 120 (Big 87) (new_PublicKey 143 144) (Some 11) None)
          16959 = Inl TypeError_MixedTypes"
    by blast
  ultimately show ?thesis
    by (rule conjI)
qed

text \<open>A simple-variant key without its primes: the error is the TypeError of
  \<^verbatim>\<open>null - 1n\<close>, not the error of the \<open>g\<close> check.\<close>

theorem getRandomFactor_without_primes:
  "decrypt (new_PrivateKey 120 (Big 87) (new_PublicKey 143 144) None None) 16959 = Inr 7 \<and>
   getRandomFactor (new_PrivateKey 120 (Big 87) (new_PublicKey 143 144) None None) 16959 =
     Inl TypeError_MixedTypes \<and>
   getRandomFactor (new_PrivateKey 120 (Big 87) (new_PublicKey 143 144) None None) 16959 \<noteq>
     Inl RangeError_CannotRecover"
  by code_simp



























end
